theory Spec2Isabelle
  imports Complex_Main "HOL-Library.AList"
begin

section \<open>Vector helpers of skeletonize.py\<close>

text \<open>
  Positions are 3-tuples of Python floats. They are modelled as triples of reals: the
  comparisons, additions and multiplications the code performs are those of the reals,
  rounding apart. The helpers that treat a tuple as a sequence (\<open>map\<close>, \<open>zip\<close>,
  \<open>all\<close>, \<open>sum\<close>) go through \<open>vlist\<close>.
\<close>

type_synonym vec3 = "real \<times> real \<times> real"

definition vlist :: "vec3 \<Rightarrow> real list" where
  "vlist v = (case v of (x, y, z) \<Rightarrow> [x, y, z])"

definition square :: "real \<Rightarrow> real" where
  "square x = x * x"

definition distance_squared :: "vec3 \<Rightarrow> vec3 \<Rightarrow> real" where
  "distance_squared v1 v2 = sum_list (map (\<lambda>(x, y). square (x - y)) (zip (vlist v1) (vlist v2)))"

definition vlength :: "vec3 \<Rightarrow> real" where
  "vlength vect = sqrt (sum_list (map (\<lambda>v. square v) (vlist vect)))"

definition vmuls3 :: "vec3 \<Rightarrow> real \<Rightarrow> vec3" where
  "vmuls3 v x = (case v of (v0, v1, v2) \<Rightarrow> (v0 * x, v1 * x, v2 * x))"

definition vdivs3 :: "vec3 \<Rightarrow> real \<Rightarrow> vec3" where
  "vdivs3 v x = (case v of (v0, v1, v2) \<Rightarrow> (v0 / x, v1 / x, v2 / x))"

definition vadds3 :: "vec3 \<Rightarrow> real \<Rightarrow> vec3" where
  "vadds3 v x = (case v of (v0, v1, v2) \<Rightarrow> (v0 + x, v1 + x, v2 + x))"

definition vsubs3 :: "vec3 \<Rightarrow> real \<Rightarrow> vec3" where
  "vsubs3 v x = (case v of (v0, v1, v2) \<Rightarrow> (v0 - x, v1 - x, v2 - x))"

definition vsub3 :: "vec3 \<Rightarrow> vec3 \<Rightarrow> vec3" where
  "vsub3 v1 v2 = (case v1 of (a0, a1, a2) \<Rightarrow> case v2 of (b0, b1, b2) \<Rightarrow> (a0 - b0, a1 - b1, a2 - b2))"

definition vmin3 :: "vec3 \<Rightarrow> vec3 \<Rightarrow> vec3" where
  "vmin3 v1 v2 = (case v1 of (a0, a1, a2) \<Rightarrow> case v2 of (b0, b1, b2) \<Rightarrow> (min a0 b0, min a1 b1, min a2 b2))"

definition vmax3 :: "vec3 \<Rightarrow> vec3 \<Rightarrow> vec3" where
  "vmax3 v1 v2 = (case v1 of (a0, a1, a2) \<Rightarrow> case v2 of (b0, b1, b2) \<Rightarrow> (max a0 b0, max a1 b1, max a2 b2))"

text \<open>
  \<open>vnormalize3\<close> asserts that the length is not zero. Its only caller,
  \<open>vnormalize_zero3\<close>, calls it under that very test, so the assertion cannot fail
  there and the model inlines the division.
\<close>

definition vnormalize_zero3 :: "vec3 \<Rightarrow> vec3" where
  "vnormalize_zero3 v = (let m = vlength v in if m \<noteq> 0 then vdivs3 v m else v)"

definition vadjust_offset_length3 :: "vec3 \<Rightarrow> vec3 \<Rightarrow> real \<Rightarrow> vec3" where
  "vadjust_offset_length3 v centre min_length =
     (let nv = vsub3 v centre; m = vlength nv
      in if m > min_length then nv else vmuls3 (vnormalize_zero3 nv) min_length)"

section \<open>Bounding box and cut points\<close>

type_synonym aabb = "vec3 \<times> vec3"

definition v3_to_aabb :: "vec3 \<Rightarrow> vec3 \<Rightarrow> aabb" where
  "v3_to_aabb v1 v2 = (vmin3 v1 v2, vmax3 v1 v2)"

definition adjust_aabb :: "aabb \<Rightarrow> real \<Rightarrow> aabb" where
  "adjust_aabb box n = v3_to_aabb (vsubs3 (fst box) n) (vadds3 (snd box) n)"

definition inside_aabb :: "aabb \<Rightarrow> vec3 \<Rightarrow> bool" where
  "inside_aabb box v =
     (let inside_min = list_all (\<lambda>(aabbn, vn). aabbn < vn) (zip (vlist (fst box)) (vlist v));
          inside_max = list_all (\<lambda>(aabbn, vn). aabbn > vn) (zip (vlist (snd box)) (vlist v))
      in inside_min \<and> inside_max)"

text \<open>
  \<open>options.stack_AABB\<close> is \<open>None\<close> or a pair of corner tuples; \<open>not aabb\<close> holds for
  \<open>None\<close> only, a pair being truthy.
\<close>

definition is_cut_point :: "vec3 \<Rightarrow> aabb option \<Rightarrow> bool" where
  "is_cut_point pos box =
     (case box of None \<Rightarrow> False
      | Some b \<Rightarrow> (let is_cut = \<not> inside_aabb b pos in is_cut))"


section \<open>Skeleton data\<close>

text \<open>
  A sample point of a segment has a position and a diameter; a segment has its two end
  node ids and its ordered sample points (the field \<open>end\<close> of the source is
  \<open>end'\<close> here). Node ids are Python integers.
\<close>

record point =
  position :: vec3
  diameter :: real

record segment =
  start :: int
  end' :: int
  points :: "point list"

text \<open>
  Python dictionaries are association lists with distinct keys, in insertion order;
  Python sets are duplicate-free lists, in insertion order too. Python leaves the order
  in which a set or a dict is iterated unspecified: the general theorems below hold for
  every graph value, hence for every order.
\<close>

type_synonym 'a pyset = "'a list"
type_synonym ('k, 'v) pydict = "('k \<times> 'v) list"

definition set_add :: "'a pyset \<Rightarrow> 'a \<Rightarrow> 'a pyset" where
  "set_add s x = (if x \<in> set s then s else s @ [x])"

text \<open>Reading a \<open>defaultdict\<close> whose factory returns an empty collection.\<close>

definition dd_get :: "('k, 'v list) pydict \<Rightarrow> 'k \<Rightarrow> 'v list" where
  "dd_get d k = (case map_of d k of None \<Rightarrow> [] | Some v \<Rightarrow> v)"

definition has_key :: "('k, 'v) pydict \<Rightarrow> 'k \<Rightarrow> bool" where
  "has_key d k = (k \<in> fst ` set d)"

datatype error = AssertionError | TypeError | KeyError | IndexError | RecursionError

record morph_options =
  k_ALLOW_CYCLES :: bool
  k_CONNECT_SOMA_SOMA :: bool
  k_SEGMENT_THRESHOLD_SQR :: real
  k_CLIP_INSIDE_SOMA :: bool
  k_INFLATE_SOMA :: bool
  k_SCALING_FACTOR :: real
  k_CUTPOINT_AABB :: "aabb option"

text \<open>
  Handles of the morphology sink: the soma object, or the section a \<open>grow\<close> call with
  a section type returned, numbered in the order of creation.
\<close>

datatype handle = Soma | Section nat

text \<open>
  \<open>morph_statistics\<close>: the five counters of \<open>warn_counts\<close> (a \<open>defaultdict\<close> starting
  at zero, one field per key) and \<open>node_grow_stats\<close>, the positions grown from each
  handle.
\<close>

record morph_statistics =
  WARN_UNCONNECTED_SEGMENTS :: nat
  WARN_IGNORED_EDGES :: nat
  WARN_MAX_GROW_DEPTH_REACHED :: nat
  WARN_CUT_NODES_FOUND :: nat
  INFO_IGNORED_POSITIONS :: nat
  node_grow_stats :: "handle \<Rightarrow> vec3 list"

definition stats0 :: morph_statistics where
  "stats0 = \<lparr>WARN_UNCONNECTED_SEGMENTS = 0, WARN_IGNORED_EDGES = 0,
     WARN_MAX_GROW_DEPTH_REACHED = 0, WARN_CUT_NODES_FOUND = 0,
     INFO_IGNORED_POSITIONS = 0, node_grow_stats = (\<lambda>h. [])\<rparr>"

section \<open>Adjacency builder\<close>

type_synonym graph = "(int, int pyset) pydict"

definition graph_add :: "graph \<Rightarrow> int \<Rightarrow> int \<Rightarrow> graph" where
  "graph_add g a b = AList.update a (set_add (dd_get g a) b) g"

fun create_node_graph_loop :: "segment list \<Rightarrow> graph \<Rightarrow> graph" where
  "create_node_graph_loop [] edges = edges"
| "create_node_graph_loop (segm # rest) edges =
     create_node_graph_loop rest
       (graph_add (graph_add edges (start segm) (end' segm)) (end' segm) (start segm))"

definition create_node_graph :: "segment list \<Rightarrow> graph" where
  "create_node_graph segments = create_node_graph_loop segments []"

section \<open>Root orientation engine\<close>

text \<open>
  The state of the \<open>while frontier\<close> loop of \<open>create_directed_graph\<close>: the directed
  edges built so far, the list \<open>visited\<close>, the worklist \<open>frontier\<close> and the statistics.
\<close>

record cdg_state =
  cdg_edges :: graph
  cdg_visited :: "int list"
  cdg_frontier :: "int list"
  cdg_stats :: morph_statistics

text \<open>
  The \<open>for nn in neighbours\<close> loop. \<open>visited\<close> does not change while it runs. The
  directed edge is kept when the neighbour passes both policy tests, and counted as
  ignored otherwise.
\<close>

fun cdg_neighbours ::
  "morph_options \<Rightarrow> int list \<Rightarrow> int \<Rightarrow> int list \<Rightarrow> cdg_state \<Rightarrow> cdg_state" where
  "cdg_neighbours options somanodes n [] s = s"
| "cdg_neighbours options somanodes n (nn # rest) s =
     (let is_visited = nn \<in> set (cdg_visited s);
          s1 = (if \<not> is_visited then s\<lparr>cdg_frontier := cdg_frontier s @ [nn]\<rparr> else s);
          s2 = (if (k_CONNECT_SOMA_SOMA options \<or> nn \<notin> set somanodes)
                   \<and> (k_ALLOW_CYCLES options \<or> \<not> is_visited)
                then s1\<lparr>cdg_edges := graph_add (cdg_edges s1) n nn\<rparr>
                else s1\<lparr>cdg_stats := (cdg_stats s1)\<lparr>WARN_IGNORED_EDGES :=
                       WARN_IGNORED_EDGES (cdg_stats s1) + 1\<rparr>\<rparr>)
      in cdg_neighbours options somanodes n rest s2)"

text \<open>
  One iteration of the \<open>while\<close> loop, for a non-empty worklist: take the front node,
  append it to \<open>visited\<close> (there is no test whether it is there already), remove its
  first occurrence from the worklist (the front itself), give it an entry in \<open>edges\<close>
  and explore its neighbours. \<open>nodesgraph\<close> is the \<open>defaultdict\<close> of
  \<open>create_node_graph\<close>: a node without segments has no neighbours.
\<close>

definition cdg_step :: "morph_options \<Rightarrow> int list \<Rightarrow> graph \<Rightarrow> cdg_state \<Rightarrow> cdg_state" where
  "cdg_step options somanodes nodesgraph s =
     (let n = hd (cdg_frontier s);
          neighbours = dd_get nodesgraph n;
          s1 = s\<lparr>cdg_visited := cdg_visited s @ [n], cdg_frontier := remove1 n (cdg_frontier s)\<rparr>;
          s2 = (if \<not> has_key (cdg_edges s1) n
                then s1\<lparr>cdg_edges := AList.update n [] (cdg_edges s1)\<rparr> else s1)
      in cdg_neighbours options somanodes n neighbours s2)"

text \<open>
  The \<open>while frontier\<close> loop. It ends for every input: each round either visits a node
  for the first time, or removes from the worklist an entry of a node visited before
  (neighbours are appended only while they are unvisited).
\<close>

lemma cdg_neighbours_visited:
  "cdg_visited (cdg_neighbours opts sm n nns s) = cdg_visited s"
  by (induction nns arbitrary: s) (simp_all add: Let_def)

lemma cdg_neighbours_frontier:
  "cdg_frontier (cdg_neighbours opts sm n nns s) =
     cdg_frontier s @ filter (\<lambda>nn. nn \<notin> set (cdg_visited s)) nns"
  by (induction nns arbitrary: s) (simp_all add: Let_def)

lemma cdg_step_visited:
  "cdg_visited (cdg_step opts sm g s) = cdg_visited s @ [hd (cdg_frontier s)]"
  by (simp add: cdg_step_def Let_def cdg_neighbours_visited)

lemma cdg_step_frontier:
  "cdg_frontier s \<noteq> [] \<Longrightarrow>
   cdg_frontier (cdg_step opts sm g s) =
     tl (cdg_frontier s) @
     filter (\<lambda>nn. nn \<notin> set (cdg_visited s) \<and> nn \<noteq> hd (cdg_frontier s))
       (dd_get g (hd (cdg_frontier s)))"
  by (cases "cdg_frontier s")
     (auto simp add: cdg_step_def Let_def cdg_neighbours_frontier intro: filter_cong)

definition nodes_of :: "graph \<Rightarrow> int set" where
  "nodes_of g = (\<Union>p \<in> set g. set (snd p))"

definition cdg_unvisited :: "graph \<Rightarrow> cdg_state \<Rightarrow> int set" where
  "cdg_unvisited g s = (nodes_of g \<union> set (cdg_frontier s)) - set (cdg_visited s)"

definition cdg_stale :: "cdg_state \<Rightarrow> nat" where
  "cdg_stale s = length (filter (\<lambda>x. x \<in> set (cdg_visited s)) (cdg_frontier s))"

lemma dd_get_nodes_of: "set (dd_get g n) \<subseteq> nodes_of g"
proof
  fix x assume "x \<in> set (dd_get g n)"
  then obtain v where "map_of g n = Some v" "x \<in> set v"
    by (cases "map_of g n") (auto simp: dd_get_def)
  then have "(n, v) \<in> set g" "x \<in> set v" by (auto dest: map_of_SomeD)
  then show "x \<in> nodes_of g" unfolding nodes_of_def by force
qed

lemma finite_cdg_unvisited: "finite (cdg_unvisited g s)"
  by (simp add: cdg_unvisited_def nodes_of_def)

lemma cdg_step_decreases:
  assumes "cdg_frontier s \<noteq> []"
  shows "card (cdg_unvisited g (cdg_step opts sm g s)) < card (cdg_unvisited g s)
       \<or> (card (cdg_unvisited g (cdg_step opts sm g s)) = card (cdg_unvisited g s)
          \<and> cdg_stale (cdg_step opts sm g s) < cdg_stale s)"
proof -
  obtain n rest where F: "cdg_frontier s = n # rest"
    using assms by (cases "cdg_frontier s") auto
  let ?s' = "cdg_step opts sm g s"
  have V': "set (cdg_visited ?s') = insert n (set (cdg_visited s))"
    by (simp add: cdg_step_visited F)
  have F': "cdg_frontier ?s' =
      rest @ filter (\<lambda>nn. nn \<notin> set (cdg_visited s) \<and> nn \<noteq> n) (dd_get g n)"
    using cdg_step_frontier [OF assms, of opts sm g] by (simp add: F)
  have sub: "cdg_unvisited g ?s' \<subseteq> cdg_unvisited g s - {n}"
    using dd_get_nodes_of [of g n] by (auto simp: cdg_unvisited_def V' F' F)
  show ?thesis
  proof (cases "n \<in> set (cdg_visited s)")
    case False
    then have "n \<in> cdg_unvisited g s" by (simp add: cdg_unvisited_def F)
    then have "cdg_unvisited g s - {n} \<subset> cdg_unvisited g s" by auto
    with sub have "cdg_unvisited g ?s' \<subset> cdg_unvisited g s" by blast
    then show ?thesis using finite_cdg_unvisited psubset_card_mono by blast
  next
    case True
    have le: "card (cdg_unvisited g ?s') \<le> card (cdg_unvisited g s)"
      using sub by (meson Diff_subset card_mono finite_cdg_unvisited subset_trans)
    have ins: "insert n (set (cdg_visited s)) = set (cdg_visited s)" using True by auto
    have "cdg_stale ?s' = length (filter (\<lambda>x. x \<in> set (cdg_visited s)) rest)"
      unfolding cdg_stale_def V' F' ins by (auto simp add: filter_empty_conv)
    moreover have "cdg_stale s = Suc (length (filter (\<lambda>x. x \<in> set (cdg_visited s)) rest))"
      using True by (simp add: cdg_stale_def F)
    ultimately show ?thesis using le by linarith
  qed
qed

function cdg_loop :: "morph_options \<Rightarrow> int list \<Rightarrow> graph \<Rightarrow> cdg_state \<Rightarrow> cdg_state" where
  "cdg_loop options somanodes nodesgraph s =
     (if cdg_frontier s = [] then s
      else cdg_loop options somanodes nodesgraph (cdg_step options somanodes nodesgraph s))"
  by pat_completeness auto
termination
proof (relation "inv_image (less_than <*lex*> less_than)
         (\<lambda>(opts, sm, g, s). (card (cdg_unvisited g s), cdg_stale s))")
  show "wf (inv_image (less_than <*lex*> less_than)
         (\<lambda>(opts, sm, g, s). (card (cdg_unvisited g s), cdg_stale s)))"
    by (intro wf_inv_image wf_lex_prod wf_less_than)
next
  fix options :: morph_options and somanodes :: "int list" and nodesgraph :: graph
    and s :: cdg_state
  assume "cdg_frontier s \<noteq> []"
  then show "((options, somanodes, nodesgraph, cdg_step options somanodes nodesgraph s),
              (options, somanodes, nodesgraph, s))
        \<in> inv_image (less_than <*lex*> less_than)
         (\<lambda>(opts, sm, g, s). (card (cdg_unvisited g s), cdg_stale s))"
    using cdg_step_decreases [of s nodesgraph options somanodes] by auto
qed

declare cdg_loop.simps [simp del]

text \<open>
  \<open>create_directed_graph\<close>: the worklist starts as a copy of \<open>somanodes\<close>; the result
  is the dictionary \<open>edges\<close>, and the statistics object has been updated in place.
\<close>

definition create_directed_graph ::
  "int list \<Rightarrow> graph \<Rightarrow> morph_options \<Rightarrow> morph_statistics \<Rightarrow> graph \<times> morph_statistics" where
  "create_directed_graph somanodes nodesgraph options stats =
     (let s = cdg_loop options somanodes nodesgraph
                \<lparr>cdg_edges = [], cdg_visited = [], cdg_frontier = somanodes, cdg_stats = stats\<rparr>
      in (cdg_edges s, cdg_stats s))"

section \<open>Segment orientation mapper\<close>

type_synonym nodesegs = "(int, segment list) pydict"

text \<open>\<open>d[k].append(v)\<close> on a \<open>defaultdict\<close> of lists.\<close>

definition dd_append :: "('k, 'v list) pydict \<Rightarrow> 'k \<Rightarrow> 'v \<Rightarrow> ('k, 'v list) pydict" where
  "dd_append d k v = AList.update k (dd_get d k @ [v]) d"

text \<open>The test \<open>a in dgraph and b in dgraph[a]\<close>.\<close>

definition has_edge :: "graph \<Rightarrow> int \<Rightarrow> int \<Rightarrow> bool" where
  "has_edge dgraph a b = (case map_of dgraph a of None \<Rightarrow> False | Some cs \<Rightarrow> b \<in> set cs)"

text \<open>The deep copy \<open>r\<close> of a segment with its ends swapped and its points reversed.\<close>

definition reversed_segment :: "segment \<Rightarrow> segment" where
  "reversed_segment s = s\<lparr>start := end' s, end' := start s, points := rev (points s)\<rparr>"

fun cnsd_loop ::
  "segment list \<Rightarrow> graph \<Rightarrow> nodesegs \<times> morph_statistics \<Rightarrow> nodesegs \<times> morph_statistics" where
  "cnsd_loop [] dgraph (nodesegments, stats) = (nodesegments, stats)"
| "cnsd_loop (s # rest) dgraph (nodesegments, stats) =
     (let connected = False;
          (ns1, connected1) =
             (if has_edge dgraph (start s) (end' s)
              then (dd_append nodesegments (start s) s, True)
              else (nodesegments, connected));
          (ns2, connected2) =
             (if has_edge dgraph (end' s) (start s)
              then (let r = reversed_segment s in (dd_append ns1 (start r) r, True))
              else (ns1, connected1));
          stats' = (if \<not> connected2
                    then stats\<lparr>WARN_UNCONNECTED_SEGMENTS := WARN_UNCONNECTED_SEGMENTS stats + 1\<rparr>
                    else stats)
      in cnsd_loop rest dgraph (ns2, stats'))"

definition create_node_segments_dict ::
  "segment list \<Rightarrow> graph \<Rightarrow> morph_statistics \<Rightarrow> nodesegs \<times> morph_statistics" where
  "create_node_segments_dict segments dgraph stats = cnsd_loop segments dgraph ([], stats)"

section \<open>Graph validator\<close>

text \<open>
  \<open>somanodes\<close> is \<open>None\<close> or a list; \<open>somanodes and ...\<close> needs it to be a non-empty
  list. \<open>nodesegments\<close> is the \<open>defaultdict\<close> of \<open>create_node_segments_dict\<close>, so the
  read \<open>nodesegments[nidx]\<close> inserts an empty list for a missing key; the updated
  dictionary is returned. A failed \<open>assert\<close> is \<open>AssertionError\<close>. The message of the
  assertion on the start ids builds \<open>set([nsstartidxs])\<close>, a set holding a list, which
  raises \<open>TypeError\<close> before the assertion error is constructed.
\<close>






section \<open>Growth stages\<close>

text \<open>
  The morphology sink is external; the model records the calls made to it, in order.
  \<open>GrowSection parent pos d new\<close> is \<open>parent.grow(x, y, z, d, Section_Type.DENDRITE)\<close>
  returning the section \<open>new\<close>; \<open>GrowPoint section pos d\<close> is \<open>section.grow(x, y, z, d)\<close>,
  which extends a section by a point; \<open>DebugSoma r\<close> stands for the call
  \<open>debug_soma(soma, r)\<close>, whose sections outline the soma and are used nowhere else.
  \<open>GrowNode parent npos pos d new\<close> is the same call as \<open>GrowSection parent pos d new\<close>
  at the two places where the section returned is stored as the handle of a node,
  \<open>nodes[npos] = ...\<close> (in \<open>grow_soma\<close> and at the end node of a segment): the event also
  records the raw position \<open>npos\<close> of the node the call is made for.
\<close>

datatype event =
    DebugSoma real
  | InsertSurfacePoint vec3
  | GrowSection handle vec3 real handle
  | GrowNode handle vec3 vec3 real handle
  | GrowPoint handle vec3 real
  | MovePoint handle nat vec3
  | MarkCutPoint handle

text \<open>
  The mutable objects the growth functions share: the dictionary \<open>nodes\<close> from raw
  positions to handles, the list \<open>visited\<close>, the statistics and the sink. An assignment
  \<open>nodes[npos] = h\<close> puts the pair in front of the list and a lookup finds the first
  pair of a key, so the list reads as the dictionary and also keeps every binding a key
  has received. \<open>sections\<close> counts the sections created, to number the next one.
\<close>

record grow_state =
  nodes :: "(vec3 \<times> handle) list"
  visited :: "int list"
  stats :: morph_statistics
  sink :: "event list"
  sections :: nat

text \<open>
  The arguments the growth functions only read. \<open>log_level\<close> is what
  \<open>logging.getLogger().getEffectiveLevel()\<close> returns; \<open>logging.DEBUG\<close> is 10.
\<close>

record grow_env =
  dagnodes :: graph
  nodesegments :: nodesegs
  scentre :: vec3
  sradius :: real
  options :: morph_options
  log_level :: int

definition debug_scale_cut_point_diameter :: "real \<Rightarrow> real \<Rightarrow> real" where
  "debug_scale_cut_point_diameter scaled_diameter scale = max (2 * scale) (scaled_diameter * 5)"

definition append_grow_stat :: "handle \<Rightarrow> vec3 \<Rightarrow> morph_statistics \<Rightarrow> morph_statistics" where
  "append_grow_stat h pos st = st\<lparr>node_grow_stats := (node_grow_stats st)(h := node_grow_stats st h @ [pos])\<rparr>"

subsection \<open>Root growth stage\<close>

text \<open>The loop over the segments of one soma node in \<open>grow_soma\<close>.\<close>

fun grow_soma_segments ::
  "grow_env \<Rightarrow> int \<Rightarrow> segment list \<Rightarrow> grow_state \<Rightarrow> error + grow_state" where
  "grow_soma_segments env snode_idx [] st = Inr st"
| "grow_soma_segments env snode_idx (segm # rest) st =
     (if start segm \<noteq> snode_idx then Inl AssertionError
      else case points segm of
        [] \<Rightarrow> Inl IndexError
      | ndata # others \<Rightarrow>
         (let scale = k_SCALING_FACTOR (options env);
              npos = position ndata;
              snpos = vadjust_offset_length3 npos (scentre env) (sradius env)
          in if k_INFLATE_SOMA (options env) then
               (let spos = vmuls3 snpos scale
                in grow_soma_segments env snode_idx rest
                     (st\<lparr>sink := sink st @ [InsertSurfacePoint spos],
                         nodes := (npos, Soma) # nodes st\<rparr>))
             else
               (let snpos' = (if log_level env < 10
                              then vadjust_offset_length3 npos (scentre env) 0 else snpos);
                    spos = vmuls3 snpos' scale;
                    sdiameter = diameter ndata * scale;
                    node = Section (sections st)
                in grow_soma_segments env snode_idx rest
                     (st\<lparr>sink := sink st @ [GrowNode Soma npos spos sdiameter node, MovePoint node 0 spos],
                         sections := sections st + 1,
                         stats := append_grow_stat Soma snpos' (stats st),
                         nodes := (npos, node) # nodes st\<rparr>))))"

fun grow_soma_nodes :: "grow_env \<Rightarrow> int list \<Rightarrow> grow_state \<Rightarrow> error + grow_state" where
  "grow_soma_nodes env [] st = Inr st"
| "grow_soma_nodes env (snode_idx # rest) st =
     (case grow_soma_segments env snode_idx (dd_get (nodesegments env) snode_idx) st of
        Inl e \<Rightarrow> Inl e
      | Inr st' \<Rightarrow> grow_soma_nodes env rest st')"

definition grow_soma :: "grow_env \<Rightarrow> int list \<Rightarrow> grow_state \<Rightarrow> error + grow_state" where
  "grow_soma env somanodes st =
     (let st1 = (if log_level env \<le> 10
                 then st\<lparr>sink := sink st @ [DebugSoma (sradius env * k_SCALING_FACTOR (options env))]\<rparr>
                 else st)
      in grow_soma_nodes env somanodes st1)"

subsection \<open>Recursive growth stage\<close>

text \<open>
  The local variables of the walk along one segment: \<open>section\<close> (\<open>None\<close> until the first
  interior point is grown; a section object is truthy), \<open>prev_pos\<close> (assigned together
  with \<open>section\<close> and read only when \<open>section\<close> is set, so its initial value is never
  used) and \<open>is_cut\<close>.
\<close>

record walk =
  w_section :: "handle option"
  w_prev_pos :: vec3
  w_is_cut :: bool

text \<open>
  The body of the loop \<open>for pt in segm.points[1:-1]\<close> for one sample, up to and
  including the count of a cut; the loop leaves at the \<open>break\<close> when \<open>is_cut\<close> is set.
\<close>

definition grow_interior_point ::
  "grow_env \<Rightarrow> handle \<Rightarrow> point \<Rightarrow> walk \<Rightarrow> grow_state \<Rightarrow> walk \<times> grow_state" where
  "grow_interior_point env node pt w st =
     (let scale = k_SCALING_FACTOR (options env);
          pos_orig = position pt;
          pos = vadjust_offset_length3 pos_orig (scentre env) 0;
          spos = vmuls3 pos scale;
          sdiameter0 = diameter pt * scale;
          is_cut = (w_is_cut w \<or> is_cut_point pos_orig (k_CUTPOINT_AABB (options env)));
          sdiameter = (if is_cut \<and> log_level env \<le> 10
                       then debug_scale_cut_point_diameter sdiameter0 scale else sdiameter0);
          (w1, st1) =
            (case w_section w of
               Some section \<Rightarrow>
                 (if distance_squared pos (w_prev_pos w) \<ge> k_SEGMENT_THRESHOLD_SQR (options env)
                  then (w\<lparr>w_prev_pos := pos\<rparr>,
                        st\<lparr>sink := sink st @ GrowPoint section spos sdiameter #
                                       (if is_cut then [MarkCutPoint section] else [])\<rparr>)
                  else (w, st\<lparr>stats := (stats st)\<lparr>INFO_IGNORED_POSITIONS :=
                                  INFO_IGNORED_POSITIONS (stats st) + 1\<rparr>\<rparr>))
             | None \<Rightarrow>
                 (if \<not> k_CLIP_INSIDE_SOMA (options env) \<or> vlength pos > sradius env + diameter pt
                  then (w\<lparr>w_section := Some (Section (sections st)), w_prev_pos := pos\<rparr>,
                        st\<lparr>sink := sink st @ [GrowSection node spos sdiameter (Section (sections st))],
                           sections := sections st + 1,
                           stats := append_grow_stat node pos (stats st)\<rparr>)
                  else (w, st)));
          w2 = w1\<lparr>w_is_cut := is_cut\<rparr>
      in if is_cut
         then (w2, st1\<lparr>stats := (stats st1)\<lparr>WARN_CUT_NODES_FOUND :=
                          WARN_CUT_NODES_FOUND (stats st1) + 1\<rparr>\<rparr>)
         else (w2, st1))"

fun grow_interior ::
  "grow_env \<Rightarrow> handle \<Rightarrow> point list \<Rightarrow> walk \<Rightarrow> grow_state \<Rightarrow> walk \<times> grow_state" where
  "grow_interior env node [] w st = (w, st)"
| "grow_interior env node (pt # rest) w st =
     (let (w2, st2) = grow_interior_point env node pt w st
      in if w_is_cut w2 then (w2, st2) else grow_interior env node rest w2 st2)"

text \<open>The handling of the end node of a segment (the last sample).\<close>

definition grow_end_node :: "grow_env \<Rightarrow> handle \<Rightarrow> point \<Rightarrow> walk \<Rightarrow> grow_state \<Rightarrow> grow_state" where
  "grow_end_node env node ndata w st =
     (let scale = k_SCALING_FACTOR (options env);
          npos = position ndata;
          nposadj = vadjust_offset_length3 npos (scentre env) (max 0 (sradius env - diameter ndata));
          is_cut = (w_is_cut w \<or> is_cut_point npos (k_CUTPOINT_AABB (options env)));
          st1 = (if is_cut
                 then st\<lparr>stats := (stats st)\<lparr>WARN_CUT_NODES_FOUND :=
                            WARN_CUT_NODES_FOUND (stats st) + 1\<rparr>\<rparr>
                 else st);
          section = (if w_section w = None
                        \<and> (\<not> k_CLIP_INSIDE_SOMA (options env)
                            \<or> vlength nposadj \<ge> sradius env + diameter ndata)
                     then Some node else w_section w)
      in if \<not> has_key (nodes st1) npos then
           (case section of
              Some sec \<Rightarrow>
                (let spos = vmuls3 nposadj scale;
                     sdiameter0 = diameter ndata * scale;
                     sdiameter = (if is_cut \<and> log_level env \<le> 10
                                  then debug_scale_cut_point_diameter sdiameter0 scale
                                  else sdiameter0);
                     new = Section (sections st1)
                 in st1\<lparr>nodes := (npos, new) # nodes st1,
                        sink := sink st1 @ GrowNode sec npos spos sdiameter new #
                                  (if is_cut then [MarkCutPoint new] else []),
                        sections := sections st1 + 1,
                        stats := append_grow_stat sec nposadj (stats st1)\<rparr>)
            | None \<Rightarrow> st1\<lparr>nodes := (npos, node) # nodes st1\<rparr>)
         else st1)"

text \<open>
  The walk along one segment that has at least two samples and whose start sample is
  not a cut point: the interior samples, then the end node.
\<close>

definition grow_segment :: "grow_env \<Rightarrow> handle \<Rightarrow> segment \<Rightarrow> grow_state \<Rightarrow> grow_state" where
  "grow_segment env node segm st =
     (let (w, st1) = grow_interior env node (butlast (tl (points segm)))
                       \<lparr>w_section = None, w_prev_pos = (0, 0, 0), w_is_cut = False\<rparr> st
      in grow_end_node env node (last (points segm)) w st1)"

text \<open>
  The loop \<open>for segm in segments\<close> of \<open>grow_segments\<close>; the result carries
  \<open>is_parent_cut\<close>, which is set only by the \<open>break\<close> at a cut start sample.
\<close>

fun grow_node_segments ::
  "grow_env \<Rightarrow> int \<Rightarrow> segment list \<Rightarrow> bool \<Rightarrow> grow_state \<Rightarrow> error + (bool \<times> grow_state)" where
  "grow_node_segments env pnode_idx [] is_parent_cut st = Inr (is_parent_cut, st)"
| "grow_node_segments env pnode_idx (segm # rest) is_parent_cut st =
     (if start segm \<noteq> pnode_idx then Inl AssertionError
      else if length (points segm) < 2 then grow_node_segments env pnode_idx rest is_parent_cut st
      else
        (let npos = position (hd (points segm))
         in case map_of (nodes st) npos of
              None \<Rightarrow> Inl AssertionError
            | Some node \<Rightarrow>
                (let is_parent_cut' =
                       (is_parent_cut \<or> is_cut_point npos (k_CUTPOINT_AABB (options env)))
                 in if is_parent_cut' then Inr (is_parent_cut', st)
                    else grow_node_segments env pnode_idx rest is_parent_cut'
                           (grow_segment env node segm st))))"

text \<open>
  \<open>grow_segments\<close> calls itself for every child. The first argument bounds the depth of
  the Python call stack: when it is used up the interpreter raises its recursion error.
  \<open>depth\<close> is the argument of the source (\<open>-1\<close> for no limit).
\<close>

fun grow_segments ::
  "nat \<Rightarrow> grow_env \<Rightarrow> int \<Rightarrow> int \<Rightarrow> grow_state \<Rightarrow> error + grow_state" where
  "grow_segments 0 env pnode_idx depth st = Inl RecursionError"
| "grow_segments (Suc limit) env pnode_idx depth st =
     (if depth = 0
      then Inr (st\<lparr>stats := (stats st)\<lparr>WARN_MAX_GROW_DEPTH_REACHED :=
                      WARN_MAX_GROW_DEPTH_REACHED (stats st) + 1\<rparr>\<rparr>)
      else if pnode_idx \<in> set (visited st) then Inr st
      else
        (case grow_node_segments env pnode_idx (dd_get (nodesegments env) pnode_idx) False
                (st\<lparr>visited := visited st @ [pnode_idx]\<rparr>) of
           Inl e \<Rightarrow> Inl e
         | Inr (is_parent_cut, st1) \<Rightarrow>
             if is_parent_cut then Inr st1
             else
               (case map_of (dagnodes env) pnode_idx of
                  None \<Rightarrow> Inl KeyError
                | Some children \<Rightarrow>
                    fold (\<lambda>cn_idx r. case r of
                            Inl e \<Rightarrow> Inl e
                          | Inr st' \<Rightarrow> grow_segments limit env cn_idx
                                        (if depth > 0 then depth - 1 else -1) st')
                      children (Inr st1))))"

text \<open>
  The growth part of \<open>create_morphology\<close>: an empty \<open>nodes\<close> dictionary, \<open>grow_soma\<close>,
  then \<open>grow_segments\<close> from every soma node with one shared \<open>visited\<close> list.
\<close>

fun grow_roots :: "nat \<Rightarrow> grow_env \<Rightarrow> int list \<Rightarrow> int \<Rightarrow> grow_state \<Rightarrow> error + grow_state" where
  "grow_roots limit env [] depth st = Inr st"
| "grow_roots limit env (snidx # rest) depth st =
     (case grow_segments limit env snidx depth st of
        Inl e \<Rightarrow> Inl e
      | Inr st' \<Rightarrow> grow_roots limit env rest depth st')"

definition grow_morphology ::
  "nat \<Rightarrow> grow_env \<Rightarrow> int list \<Rightarrow> int \<Rightarrow> morph_statistics \<Rightarrow> error + grow_state" where
  "grow_morphology limit env soma_node_idxs depth statistics =
     (case grow_soma env soma_node_idxs
             \<lparr>nodes = [], visited = [], stats = statistics, sink = [], sections = 0\<rparr> of
        Inl e \<Rightarrow> Inl e
      | Inr st \<Rightarrow> grow_roots limit env soma_node_idxs depth st)"

section \<open>Cut classification\<close>

lemma inside_aabb_iff:
  "inside_aabb ((lx, ly, lz), (hx, hy, hz)) (x, y, z) =
     (lx < x \<and> ly < y \<and> lz < z \<and> hx > x \<and> hy > y \<and> hz > z)"
  by (simp add: inside_aabb_def vlist_def)

text \<open>
  C10. \<open>is_cut_point\<close> is true exactly when a box is configured and the position is not
  strictly inside it; with no box it is false for every position, and a position on a
  face of the box (one coordinate equal to the box's bound on that axis) is a cut point.
\<close>

theorem is_cut_point_characterisation:
  "is_cut_point (x, y, z) box =
     (case box of None \<Rightarrow> False
      | Some ((lx, ly, lz), (hx, hy, hz)) \<Rightarrow>
          \<not> (lx < x \<and> x < hx \<and> ly < y \<and> y < hy \<and> lz < z \<and> z < hz))
   \<and> is_cut_point (x, y, z) None = False
   \<and> ((x = lx \<or> x = hx \<or> y = ly \<or> y = hy \<or> z = lz \<or> z = hz) \<longrightarrow>
        is_cut_point (x, y, z) (Some ((lx, ly, lz), (hx, hy, hz))))"
  by (auto simp: is_cut_point_def inside_aabb_iff split: option.splits)

theorem is_cut_point_characterisation_witness:
  "is_cut_point (0, 5, 5) (Some (adjust_aabb ((1, 1, 1), (9, 9, 9)) 1))
   \<and> \<not> is_cut_point (1, 5, 5) (Some (adjust_aabb ((1, 1, 1), (9, 9, 9)) 1))
   \<and> \<not> is_cut_point (0, 5, 5) None"
  using is_cut_point_characterisation [of 0 5 5 "Some ((0, 0, 0), (10, 10, 10))" 0 0 0 10 10 10]
    is_cut_point_characterisation [of 1 5 5 "Some ((0, 0, 0), (10, 10, 10))" 0 0 0 10 10 10]
  by (simp add: adjust_aabb_def v3_to_aabb_def vsubs3_def vadds3_def vmin3_def vmax3_def)

section \<open>Scenarios\<close>

text \<open>
  Concrete inputs: sample points on the x axis with diameter 1, segments given by their
  end node ids and the x coordinates of their samples, and the options the program
  starts with (no cycles, no soma-to-soma edges, threshold 0, no bounding box).
\<close>

definition sample_point :: "real \<Rightarrow> point" where
  "sample_point x = \<lparr>position = (x, 0, 0), diameter = 1\<rparr>"

definition line_segment :: "int \<Rightarrow> int \<Rightarrow> real list \<Rightarrow> segment" where
  "line_segment a b xs = \<lparr>start = a, end' = b, points = map sample_point xs\<rparr>"

definition default_options :: morph_options where
  "default_options = \<lparr>k_ALLOW_CYCLES = False, k_CONNECT_SOMA_SOMA = False,
     k_SEGMENT_THRESHOLD_SQR = 0, k_CLIP_INSIDE_SOMA = True, k_INFLATE_SOMA = True,
     k_SCALING_FACTOR = 1, k_CUTPOINT_AABB = None\<rparr>"

definition path_segments :: "segment list" where
  "path_segments = [line_segment 1 2 [0, 1], line_segment 2 3 [1, 2], line_segment 3 4 [2, 3]]"

definition triangle_segments :: "segment list" where
  "triangle_segments = [line_segment 1 2 [0, 1], line_segment 2 3 [1, 2], line_segment 3 1 [2, 0]]"

section \<open>Segment orientation: properties\<close>

lemma dd_get_dd_append:
  "dd_get (dd_append d k v) k' = (if k' = k then dd_get d k @ [v] else dd_get d k')"
  by (simp add: dd_get_def dd_append_def update_conv')

lemma has_key_dd_append: "has_key (dd_append d k v) k' = (k' = k \<or> has_key d k')"
  by (auto simp: has_key_def dd_append_def dom_update)


text \<open>What one segment contributes to the entry of node \<open>k\<close>.\<close>

definition oriented_copies :: "graph \<Rightarrow> int \<Rightarrow> segment \<Rightarrow> segment list" where
  "oriented_copies dgraph k s =
     (if start s = k \<and> has_edge dgraph (start s) (end' s) then [s] else []) @
     (if end' s = k \<and> has_edge dgraph (end' s) (start s) then [reversed_segment s] else [])"

lemma start_reversed_segment [simp]: "start (reversed_segment s) = end' s"
  by (simp add: reversed_segment_def)

lemma cnsd_loop_get:
  "dd_get (fst (cnsd_loop segs dgraph (ns, st))) k =
     dd_get ns k @ concat (map (oriented_copies dgraph k) segs)"
  by (induction segs arbitrary: ns st)
     (auto simp: Let_def dd_get_dd_append oriented_copies_def)

lemma cnsd_loop_key:
  "has_key (fst (cnsd_loop segs dgraph (ns, st))) k =
     (has_key ns k \<or> concat (map (oriented_copies dgraph k) segs) \<noteq> [])"
proof (induction segs arbitrary: ns st)
  case Nil
  then show ?case by simp
next
  case (Cons s segs)
  show ?case
    by (cases "has_edge dgraph (start s) (end' s)"; cases "has_edge dgraph (end' s) (start s)";
        cases "start s = k"; cases "end' s = k")
       (simp_all add: Let_def Cons.IH has_key_dd_append oriented_copies_def)
qed

lemma cnsd_loop_count:
  "WARN_UNCONNECTED_SEGMENTS (snd (cnsd_loop segs dgraph (ns, st))) =
     WARN_UNCONNECTED_SEGMENTS st +
     length (filter (\<lambda>s. \<not> has_edge dgraph (start s) (end' s)
                         \<and> \<not> has_edge dgraph (end' s) (start s)) segs)"
  by (induction segs arbitrary: ns st) (auto simp: Let_def)

text \<open>
  C6. For every segment list, directed graph and node \<open>k\<close>, the entry of \<open>k\<close> in the
  result of \<open>create_node_segments_dict\<close> is, in the order of the segments: the segment
  itself when it starts at \<open>k\<close> and the graph has the edge from its start to its end,
  and its copy with the ends swapped and the points reversed when it ends at \<open>k\<close> and
  the graph has the edge from its end to its start (both for a segment with both edges).
  A key is in the result only with a non-empty entry, so a segment with neither edge
  adds nothing; the unconnected counter grows by one for each such segment.
\<close>

theorem create_node_segments_dict_oriented:
  "dd_get (fst (create_node_segments_dict segs dgraph st)) k =
     concat (map (\<lambda>s.
       (if start s = k \<and> has_edge dgraph (start s) (end' s) then [s] else []) @
       (if end' s = k \<and> has_edge dgraph (end' s) (start s)
        then [s\<lparr>start := end' s, end' := start s, points := rev (points s)\<rparr>] else [])) segs)
   \<and> has_key (fst (create_node_segments_dict segs dgraph st)) k =
       (dd_get (fst (create_node_segments_dict segs dgraph st)) k \<noteq> [])
   \<and> WARN_UNCONNECTED_SEGMENTS (snd (create_node_segments_dict segs dgraph st)) =
       WARN_UNCONNECTED_SEGMENTS st +
       length (filter (\<lambda>s. \<not> has_edge dgraph (start s) (end' s)
                           \<and> \<not> has_edge dgraph (end' s) (start s)) segs)"
proof -
  have eq: "oriented_copies dgraph k = (\<lambda>s.
       (if start s = k \<and> has_edge dgraph (start s) (end' s) then [s] else []) @
       (if end' s = k \<and> has_edge dgraph (end' s) (start s)
        then [s\<lparr>start := end' s, end' := start s, points := rev (points s)\<rparr>] else []))"
    by (rule ext) (auto simp add: oriented_copies_def reversed_segment_def)
  have "has_key ([] :: nodesegs) k = False" "dd_get ([] :: nodesegs) k = []"
    by (simp_all add: has_key_def dd_get_def)
  then show ?thesis
    unfolding create_node_segments_dict_def
    using cnsd_loop_get [of segs dgraph "[]" st k] cnsd_loop_key [of segs dgraph "[]" st k]
      cnsd_loop_count [of segs dgraph "[]" st]
    by (simp add: eq)
qed

theorem create_node_segments_dict_oriented_witness:
  "dd_get (fst (create_node_segments_dict
       [line_segment 1 2 [0, 1], line_segment 2 3 [1, 2], line_segment 5 6 [7, 8]]
       [(1, [2]), (2, [3]), (3, [2])] stats0)) 3
     = [line_segment 3 2 [2, 1]]
   \<and> WARN_UNCONNECTED_SEGMENTS (snd (create_node_segments_dict
       [line_segment 1 2 [0, 1], line_segment 2 3 [1, 2], line_segment 5 6 [7, 8]]
       [(1, [2]), (2, [3]), (3, [2])] stats0)) = 1
   \<and> \<not> has_key (fst (create_node_segments_dict
       [line_segment 1 2 [0, 1], line_segment 2 3 [1, 2], line_segment 5 6 [7, 8]]
       [(1, [2]), (2, [3]), (3, [2])] stats0)) 5"
  using create_node_segments_dict_oriented
      [of "[line_segment 1 2 [0, 1], line_segment 2 3 [1, 2], line_segment 5 6 [7, 8]]"
          "[(1, [2]), (2, [3]), (3, [2])]" stats0 3]
    create_node_segments_dict_oriented
      [of "[line_segment 1 2 [0, 1], line_segment 2 3 [1, 2], line_segment 5 6 [7, 8]]"
          "[(1, [2]), (2, [3]), (3, [2])]" stats0 5]
  by (simp add: line_segment_def has_edge_def stats0_def)

section \<open>Root orientation: scenarios\<close>

lemma create_node_graph_path:
  "create_node_graph path_segments = [(1, [2]), (2, [1, 3]), (3, [2, 4]), (4, [3])]"
  by (simp add: create_node_graph_def path_segments_def line_segment_def graph_add_def
        set_add_def dd_get_def)

lemma create_directed_graph_path:
  "create_directed_graph [1] [(1, [2]), (2, [1, 3]), (3, [2, 4]), (4, [3])]
     (default_options\<lparr>k_CONNECT_SOMA_SOMA := c\<rparr>) stats0 =
   ([(1, [2]), (2, [3]), (3, [4]), (4, [])], stats0\<lparr>WARN_IGNORED_EDGES := 3\<rparr>)"
  by (simp add: create_directed_graph_def cdg_loop.simps cdg_step_def default_options_def
        Let_def has_key_def graph_add_def set_add_def dd_get_def stats0_def)

text \<open>
  C3 (as the code has it). For the path graph 1-2-3-4 with root 1 and cycles disallowed
  (with either setting of soma-to-soma edges), \<open>create_directed_graph\<close> returns the
  graph \<open>{1: {2}, 2: {3}, 3: {4}, 4: {}}\<close> and counts three ignored edges: the edge back
  to the node it was reached from is rejected at each of the nodes 2, 3 and 4.
  \<open>create_node_segments_dict\<close> then places every segment and leaves the unconnected
  counter, and every other counter, at zero.
\<close>

theorem scenario_A_path_graph:
  "create_directed_graph [1] (create_node_graph path_segments)
      (default_options\<lparr>k_CONNECT_SOMA_SOMA := c\<rparr>) stats0 =
     ([(1, [2]), (2, [3]), (3, [4]), (4, [])], stats0\<lparr>WARN_IGNORED_EDGES := 3\<rparr>)
   \<and> create_node_segments_dict path_segments [(1, [2]), (2, [3]), (3, [4]), (4, [])]
        (stats0\<lparr>WARN_IGNORED_EDGES := 3\<rparr>) =
     ([(1, [line_segment 1 2 [0, 1]]), (2, [line_segment 2 3 [1, 2]]),
       (3, [line_segment 3 4 [2, 3]])],
      stats0\<lparr>WARN_IGNORED_EDGES := 3\<rparr>)"
  by (simp add: create_node_graph_path create_directed_graph_path)
     (simp add: create_node_segments_dict_def path_segments_def line_segment_def has_edge_def
        dd_append_def dd_get_def Let_def)

theorem scenario_A_ignored_edges_counterexample:
  "WARN_IGNORED_EDGES (snd (create_directed_graph [1] (create_node_graph path_segments)
      default_options stats0)) \<noteq> 0"
  using create_directed_graph_path [of False]
  by (simp add: create_node_graph_path default_options_def stats0_def)

section \<open>Offset vectors\<close>

lemma vlength_zero: "vlength (0, 0, 0) = 0"
  by (simp add: vlength_def vlist_def square_def)

lemma vadjust_offset_length3_at_centre: "vadjust_offset_length3 c c r = (0, 0, 0)"
  by (cases c)
     (simp add: vadjust_offset_length3_def vsub3_def vlength_zero Let_def
        vnormalize_zero3_def vmuls3_def)

lemma vlength_nonneg: "0 \<le> vlength v"
  by (cases v) (simp add: vlength_def vlist_def square_def)

lemma vlength_scale: "vlength (vmuls3 v k) = \<bar>k\<bar> * vlength v"
proof (cases v)
  case (fields a b c)
  have "a * k * (a * k) + (b * k * (b * k) + c * k * (c * k)) = (k * k) * (a * a + (b * b + c * c))"
    by (simp add: algebra_simps)
  then show ?thesis
    by (simp add: fields vlength_def vmuls3_def vlist_def square_def real_sqrt_mult)
qed

lemma vdivs3_vmuls3: "vdivs3 v m = vmuls3 v (1 / m)"
  by (cases v) (simp add: vdivs3_def vmuls3_def)

lemma vadjust_min_length:
  assumes "vlength (vsub3 v c) \<noteq> 0" "0 \<le> r"
  shows "r \<le> vlength (vadjust_offset_length3 v c r)"
proof -
  let ?nv = "vsub3 v c"
  have pos: "0 < vlength ?nv" using assms(1) vlength_nonneg [of ?nv] by linarith
  show ?thesis
  proof (cases "vlength ?nv > r")
    case True
    then show ?thesis by (simp add: vadjust_offset_length3_def Let_def)
  next
    case False
    have "vlength (vmuls3 (vdivs3 ?nv (vlength ?nv)) r) = r"
      using pos assms(2) by (simp add: vlength_scale vdivs3_vmuls3)
    then show ?thesis using False assms(1)
      by (simp add: vadjust_offset_length3_def Let_def vnormalize_zero3_def)
  qed
qed


text \<open>
  The input of the defect: one soma node, 1, placed exactly at the soma centre
  \<open>(1, 2, 3)\<close> of a soma of radius 5, with one segment to node 2; default options, log
  level \<open>INFO\<close>.
\<close>

definition centre_env :: grow_env where
  "centre_env = \<lparr>dagnodes = [(1, [2]), (2, [])],
     nodesegments = [(1, [\<lparr>start = 1, end' = 2,
         points = [\<lparr>position = (1, 2, 3), diameter = 1\<rparr>,
                   \<lparr>position = (9, 2, 3), diameter = 1\<rparr>]\<rparr>])],
     scentre = (1, 2, 3), sradius = 5, options = default_options, log_level = 20\<rparr>"

definition grow_state0 :: grow_state where
  "grow_state0 = \<lparr>nodes = [], visited = [], stats = stats0, sink = [], sections = 0\<rparr>"

text \<open>
  C8 (the code at the failing input). For a position equal to the centre,
  \<open>vadjust_offset_length3\<close> returns the zero vector whatever the minimum length is, so
  for a root placed at the soma centre \<open>grow_soma\<close> inserts the soma surface point
  \<open>(0, 0, 0)\<close>: its offset has length 0, less than the radius 5. For every other
  position the offset is at least as long as a non-negative radius
  (\<open>vadjust_min_length\<close>).
\<close>

theorem grow_soma_root_at_centre:
  "vadjust_offset_length3 c c r = (0, 0, 0)
   \<and> vlength (vadjust_offset_length3 (1, 2, 3) (scentre centre_env) (sradius centre_env)) = 0
   \<and> grow_soma centre_env [1] grow_state0 =
       Inr (grow_state0\<lparr>sink := [InsertSurfacePoint (0, 0, 0)], nodes := [((1, 2, 3), Soma)]\<rparr>)"
  by (simp add: grow_soma_def centre_env_def grow_state0_def dd_get_def default_options_def
      vadjust_offset_length3_at_centre vmuls3_def vlength_zero)

section \<open>Root orientation: reachability\<close>

lemma graph_add_keys: "fst ` set (graph_add g a b) = insert a (fst ` set g)"
  by (simp add: graph_add_def dom_update)

lemma cdg_neighbours_keys:
  "fst ` set (cdg_edges s) \<subseteq> fst ` set (cdg_edges (cdg_neighbours opts sm n nns s))"
proof (induction nns arbitrary: s)
  case Nil
  then show ?case by simp
next
  case (Cons nn nns)
  show ?case
    apply (simp add: Let_def)
    apply (intro conjI impI)
    apply (rule order_trans [OF _ Cons.IH]; auto simp: graph_add_keys)+
    done
qed

lemma cdg_step_keys:
  "insert (hd (cdg_frontier s)) (fst ` set (cdg_edges s)) \<subseteq> fst ` set (cdg_edges (cdg_step opts sm g s))"
  unfolding cdg_step_def Let_def
  by (rule order_trans [OF _ cdg_neighbours_keys]) (auto simp: has_key_def dom_update)

definition cdg_inv :: "int list \<Rightarrow> graph \<Rightarrow> cdg_state \<Rightarrow> bool" where
  "cdg_inv somanodes g s =
     (set somanodes \<subseteq> set (cdg_visited s) \<union> set (cdg_frontier s)
      \<and> (\<forall>v \<in> set (cdg_visited s). set (dd_get g v) \<subseteq> set (cdg_visited s) \<union> set (cdg_frontier s))
      \<and> set (cdg_visited s) \<subseteq> fst ` set (cdg_edges s))"

lemma cdg_inv_step:
  assumes "cdg_inv sm g s" "cdg_frontier s \<noteq> []"
  shows "cdg_inv sm g (cdg_step opts sm g s)"
proof -
  obtain n rest where F: "cdg_frontier s = n # rest"
    using assms(2) by (cases "cdg_frontier s") auto
  let ?s' = "cdg_step opts sm g s"
  have V': "cdg_visited ?s' = cdg_visited s @ [n]"
    by (simp add: cdg_step_visited F)
  have F': "cdg_frontier ?s' =
      rest @ filter (\<lambda>nn. nn \<notin> set (cdg_visited s) \<and> nn \<noteq> n) (dd_get g n)"
    using cdg_step_frontier [OF assms(2), of opts sm g] by (simp add: F)
  have K: "insert n (fst ` set (cdg_edges s)) \<subseteq> fst ` set (cdg_edges ?s')"
    using cdg_step_keys [of s opts sm g] by (simp add: F)
  have U: "set (cdg_visited s) \<union> set (cdg_frontier s) \<subseteq> set (cdg_visited ?s') \<union> set (cdg_frontier ?s')"
    by (auto simp: V' F' F)
  have N: "set (dd_get g n) \<subseteq> set (cdg_visited ?s') \<union> set (cdg_frontier ?s')"
    by (auto simp: V' F')
  have I1: "set sm \<subseteq> set (cdg_visited s) \<union> set (cdg_frontier s)"
    and I2: "\<And>v. v \<in> set (cdg_visited s) \<Longrightarrow>
           set (dd_get g v) \<subseteq> set (cdg_visited s) \<union> set (cdg_frontier s)"
    and I3: "set (cdg_visited s) \<subseteq> fst ` set (cdg_edges s)"
    using assms(1) unfolding cdg_inv_def by blast+
  have "set sm \<subseteq> set (cdg_visited ?s') \<union> set (cdg_frontier ?s')"
    using I1 U by blast
  moreover have "\<forall>v \<in> set (cdg_visited ?s').
      set (dd_get g v) \<subseteq> set (cdg_visited ?s') \<union> set (cdg_frontier ?s')"
  proof
    fix v assume "v \<in> set (cdg_visited ?s')"
    then have "v \<in> set (cdg_visited s) \<or> v = n" by (auto simp: V')
    then show "set (dd_get g v) \<subseteq> set (cdg_visited ?s') \<union> set (cdg_frontier ?s')"
      using I2 U N by blast
  qed
  moreover have "set (cdg_visited ?s') \<subseteq> fst ` set (cdg_edges ?s')"
    using I3 K by (auto simp: V')
  ultimately show ?thesis unfolding cdg_inv_def by blast
qed

lemma cdg_loop_inv:
  "cdg_inv sm g s \<Longrightarrow> cdg_inv sm g (cdg_loop opts sm g s) \<and> cdg_frontier (cdg_loop opts sm g s) = []"
proof (induction opts sm g s rule: cdg_loop.induct)
  case (1 options somanodes nodesgraph s)
  show ?case
  proof (cases "cdg_frontier s = []")
    case True
    then show ?thesis using "1.prems" by (simp add: cdg_loop.simps)
  next
    case False
    from "1.IH" [OF False cdg_inv_step [OF "1.prems" False]] show ?thesis
      using False by (subst (1 2) cdg_loop.simps) simp
  qed
qed


text \<open>
  C7. Every node that can be reached from a soma node along the neighbour sets of
  \<open>nodesgraph\<close> is a key of the graph \<open>create_directed_graph\<close> returns, for all options.
\<close>

theorem create_directed_graph_reachable:
  assumes "r \<in> set somanodes"
    and "(r, n) \<in> {(a, b). b \<in> set (dd_get nodesgraph a)}\<^sup>*"
  shows "has_key (fst (create_directed_graph somanodes nodesgraph opts st)) n"
proof -
  let ?init = "\<lparr>cdg_edges = [], cdg_visited = [], cdg_frontier = somanodes, cdg_stats = st\<rparr>"
  let ?fin = "cdg_loop opts somanodes nodesgraph ?init"
  have "cdg_inv somanodes nodesgraph ?init" by (simp add: cdg_inv_def)
  from cdg_loop_inv [OF this, of opts]
  have I: "cdg_inv somanodes nodesgraph ?fin" and E: "cdg_frontier ?fin = []" by blast+
  have "n \<in> set (cdg_visited ?fin)"
    using assms(2)
  proof (induction rule: rtrancl_induct)
    case base
    then show ?case using I E assms(1) by (auto simp: cdg_inv_def)
  next
    case (step y z)
    then show ?case using I E by (auto simp: cdg_inv_def)
  qed
  then show ?thesis
    using I by (auto simp: cdg_inv_def create_directed_graph_def Let_def has_key_def)
qed

theorem create_directed_graph_reachable_witness:
  "(1::int) \<in> set [1]
   \<and> (1, 4) \<in> {(a, b). b \<in> set (dd_get [(1::int, [2]), (2, [1, 3]), (3, [2, 4]), (4, [3::int])] a)}\<^sup>*
   \<and> has_key (fst (create_directed_graph [1] [(1, [2]), (2, [1, 3]), (3, [2, 4]), (4, [3])]
         default_options stats0)) 4"
proof -
  let ?R = "{(a, b). b \<in> set (dd_get [(1::int, [2]), (2, [1, 3]), (3, [2, 4]), (4, [3::int])] a)}"
  have "(1, 2) \<in> ?R" "(2, 3) \<in> ?R" "(3, 4) \<in> ?R" by (simp_all add: dd_get_def)
  then have reach: "(1, 4) \<in> ?R\<^sup>*"
    by (blast intro: rtrancl_trans r_into_rtrancl)
  have root: "(1::int) \<in> set [1]" by simp
  from create_directed_graph_reachable [OF root reach, of default_options stats0] root reach
  show ?thesis by blast
qed

section \<open>Simplification threshold\<close>

lemma vlength_eq_0_iff: "vlength (a, b, c) = 0 \<longleftrightarrow> a = 0 \<and> b = 0 \<and> c = 0"
proof -
  have "a * a + (b * b + c * c) = 0 \<longleftrightarrow> a = 0 \<and> b = 0 \<and> c = 0"
    by (smt (verit) mult_eq_0_iff zero_le_square add_nonneg_eq_0_iff add_nonneg_nonneg)
  then show ?thesis by (simp add: vlength_def vlist_def square_def)
qed

lemma vadjust_offset_length3_zero: "vadjust_offset_length3 v c 0 = vsub3 v c"
proof (cases "vlength (vsub3 v c) > 0")
  case True
  then show ?thesis by (simp add: vadjust_offset_length3_def Let_def)
next
  case False
  then have z: "vlength (vsub3 v c) = 0" using vlength_nonneg [of "vsub3 v c"] by linarith
  obtain a b d where nv: "vsub3 v c = (a, b, d)" by (cases "vsub3 v c")
  with z have "a = 0 \<and> b = 0 \<and> d = 0" by (simp add: vlength_eq_0_iff)
  then show ?thesis using z nv
    by (simp add: vadjust_offset_length3_def Let_def vnormalize_zero3_def vmuls3_def)
qed

lemma vlength_x: "vlength (x, 0, 0) = \<bar>x\<bar>"
  by (simp add: vlength_def vlist_def square_def)

lemma distance_squared_x: "distance_squared (x, 0, 0) (y, 0, 0) = (x - y) * (x - y)"
  by (simp add: distance_squared_def vlist_def square_def)

text \<open>
  The points grown are the \<open>grow\<close> calls made to the sink. \<open>interior_points_grown\<close> is
  the number of such calls the loop over the interior samples of a segment makes, and
  \<open>with_threshold\<close> sets \<open>k_SEGMENT_THRESHOLD_SQR\<close>.
\<close>

fun is_grow :: "event \<Rightarrow> bool" where
  "is_grow (GrowSection parent pos d new) = True"
| "is_grow (GrowNode parent npos pos d new) = True"
| "is_grow (GrowPoint section pos d) = True"
| "is_grow e = False"

definition grown_count :: "event list \<Rightarrow> nat" where
  "grown_count evs = length (filter is_grow evs)"

definition with_threshold :: "grow_env \<Rightarrow> real \<Rightarrow> grow_env" where
  "with_threshold env t = env\<lparr>options := (options env)\<lparr>k_SEGMENT_THRESHOLD_SQR := t\<rparr>\<rparr>"

definition walk0 :: walk where
  "walk0 = \<lparr>w_section = None, w_prev_pos = (0, 0, 0), w_is_cut = False\<rparr>"

definition interior_points_grown :: "grow_env \<Rightarrow> handle \<Rightarrow> segment \<Rightarrow> grow_state \<Rightarrow> nat" where
  "interior_points_grown env node segm st =
     grown_count (sink (snd (grow_interior env node (butlast (tl (points segm))) walk0 st)))
       - grown_count (sink st)"

text \<open>
  A segment from node 1 to node 2 whose interior samples go forth and back along the x
  axis: 10, 20, 29, 12, 29.
\<close>

definition zigzag_segment :: segment where
  "zigzag_segment = line_segment 1 2 [2, 10, 20, 29, 12, 29, 40]"

definition zigzag_env :: grow_env where
  "zigzag_env = \<lparr>dagnodes = [(1, [2]), (2, [])],
     nodesegments = [(1, [zigzag_segment])],
     scentre = (0, 0, 0), sradius = 5, options = default_options, log_level = 20\<rparr>"

lemma distance_squared_nonneg: "0 \<le> distance_squared a b"
  by (cases a; cases b) (simp add: distance_squared_def vlist_def square_def)

definition clip_passed :: "grow_env \<Rightarrow> point \<Rightarrow> bool" where
  "clip_passed env pt =
     (\<not> k_CLIP_INSIDE_SOMA (options env)
      \<or> vlength (vadjust_offset_length3 (position pt) (scentre env) 0) > sradius env + diameter pt)"

lemma gip_cut:
  "w_is_cut (fst (grow_interior_point env node pt w st)) =
     (w_is_cut w \<or> is_cut_point (position pt) (k_CUTPOINT_AABB (options env)))"
  by (simp add: grow_interior_point_def Let_def split: option.splits prod.splits)

lemma gip_section_none:
  "(w_section (fst (grow_interior_point env node pt w st)) = None) =
     (w_section w = None \<and> \<not> clip_passed env pt)"
  by (auto simp: grow_interior_point_def clip_passed_def Let_def split: option.splits prod.splits)

lemma gip_count:
  "grown_count (sink (snd (grow_interior_point env node pt w st))) =
     grown_count (sink st) +
     (if w_section w = None then (if clip_passed env pt then 1 else 0)
      else (if distance_squared (vadjust_offset_length3 (position pt) (scentre env) 0) (w_prev_pos w)
                \<ge> k_SEGMENT_THRESHOLD_SQR (options env) then 1 else 0))"
  by (auto simp: grow_interior_point_def clip_passed_def Let_def grown_count_def
           split: option.splits prod.splits)

lemma with_threshold_simps [simp]:
  "k_CUTPOINT_AABB (options (with_threshold env t)) = k_CUTPOINT_AABB (options env)"
  "k_SEGMENT_THRESHOLD_SQR (options (with_threshold env t)) = t"
  "scentre (with_threshold env t) = scentre env"
  "clip_passed (with_threshold env t) pt = clip_passed env pt"
  by (simp_all add: with_threshold_def clip_passed_def)

lemma grow_interior_threshold_zero:
  assumes "(w_section w = None) = (w_section w' = None)" "w_is_cut w = w_is_cut w'"
  shows "grown_count (sink (snd (grow_interior (with_threshold env t) node pts w st)))
           + grown_count (sink st')
         \<le> grown_count (sink (snd (grow_interior (with_threshold env 0) node pts w' st')))
           + grown_count (sink st)"
  using assms
proof (induction pts arbitrary: w w' st st')
  case Nil
  then show ?case by simp
next
  case (Cons pt pts)
  let ?a = "grow_interior_point (with_threshold env t) node pt w st"
  let ?b = "grow_interior_point (with_threshold env 0) node pt w' st'"
  have cut: "w_is_cut (fst ?a) = w_is_cut (fst ?b)"
    using Cons.prems by (simp add: gip_cut)
  have sec: "(w_section (fst ?a) = None) = (w_section (fst ?b) = None)"
    using Cons.prems by (simp add: gip_section_none)
  have cnt: "grown_count (sink (snd ?a)) + grown_count (sink st')
             \<le> grown_count (sink (snd ?b)) + grown_count (sink st)"
    using Cons.prems(1) distance_squared_nonneg by (simp add: gip_count)
  show ?case
  proof (cases "w_is_cut (fst ?a)")
    case True
    then show ?thesis using cut cnt by (simp add: split_beta)
  next
    case False
    from Cons.IH [OF sec cut, of "snd ?a" "snd ?b"] cnt False cut
    show ?thesis by (simp add: split_beta)
  qed
qed


lemmas walk_eval = grow_interior_point_def Let_def with_threshold_def zigzag_env_def
  zigzag_segment_def line_segment_def sample_point_def default_options_def
  vadjust_offset_length3_zero vsub3_def vmuls3_def vlength_x distance_squared_x walk0_def
  grow_state0_def append_grow_stat_def is_cut_point_def

lemma zigzag_grown_100:
  "interior_points_grown (with_threshold zigzag_env 100) Soma zigzag_segment grow_state0 = 2"
  by (simp add: interior_points_grown_def grown_count_def walk_eval)

lemma zigzag_grown_225:
  "interior_points_grown (with_threshold zigzag_env 225) Soma zigzag_segment grow_state0 = 4"
  by (simp add: interior_points_grown_def grown_count_def walk_eval)

text \<open>
  C9 (as the code has it). A point is compared with the point grown last, so a larger
  threshold can drop a point whose absence lets later points pass: the number of
  interior points grown is not monotone in the threshold. What holds is the bound by
  threshold 0: for every threshold, no more interior points are grown than with
  threshold 0, on the same segment from the same state.
\<close>

theorem interior_points_grown_le_threshold_zero:
  "interior_points_grown (with_threshold env t) node segm st
     \<le> interior_points_grown (with_threshold env 0) node segm st"
  unfolding interior_points_grown_def
  using grow_interior_threshold_zero [of walk0 walk0 env t node "butlast (tl (points segm))" st st]
  by simp

theorem interior_points_grown_le_threshold_zero_witness:
  "interior_points_grown (with_threshold zigzag_env 225) Soma zigzag_segment grow_state0
     \<le> interior_points_grown (with_threshold zigzag_env 0) Soma zigzag_segment grow_state0"
  using interior_points_grown_le_threshold_zero [of zigzag_env 225 Soma zigzag_segment grow_state0]
  by simp

theorem threshold_monotonicity_counterexample:
  "(225::real) \<ge> 100 \<and> (100::real) \<ge> 0
   \<and> \<not> interior_points_grown (with_threshold zigzag_env 225) Soma zigzag_segment grow_state0
        \<le> interior_points_grown (with_threshold zigzag_env 100) Soma zigzag_segment grow_state0"
  by (simp add: zigzag_grown_100 zigzag_grown_225)

section \<open>Growth: what a walk changes\<close>

lemma gip_nodes [simp]: "nodes (snd (grow_interior_point env node pt w st)) = nodes st"
  by (simp add: grow_interior_point_def Let_def split: option.splits prod.splits)

lemma gip_visited [simp]: "visited (snd (grow_interior_point env node pt w st)) = visited st"
  by (simp add: grow_interior_point_def Let_def split: option.splits prod.splits)

lemma gip_cut_count:
  "WARN_CUT_NODES_FOUND (stats (snd (grow_interior_point env node pt w st))) =
     WARN_CUT_NODES_FOUND (stats st)
       + (if w_is_cut (fst (grow_interior_point env node pt w st)) then 1 else 0)"
  by (simp add: grow_interior_point_def Let_def append_grow_stat_def split: option.splits prod.splits)

lemma grow_interior_nodes [simp]: "nodes (snd (grow_interior env node pts w st)) = nodes st"
  by (induction pts arbitrary: w st) (simp_all add: split_beta)

lemma grow_interior_visited [simp]: "visited (snd (grow_interior env node pts w st)) = visited st"
  by (induction pts arbitrary: w st) (simp_all add: split_beta)

definition end_is_cut :: "grow_env \<Rightarrow> walk \<Rightarrow> point \<Rightarrow> bool" where
  "end_is_cut env w ndata = (w_is_cut w \<or> is_cut_point (position ndata) (k_CUTPOINT_AABB (options env)))"

lemma grow_end_node_key: "has_key (nodes (grow_end_node env node ndata w st)) (position ndata)"
  by (auto simp: grow_end_node_def Let_def has_key_def split: option.splits)

lemma grow_end_node_visited [simp]: "visited (grow_end_node env node ndata w st) = visited st"
  by (simp add: grow_end_node_def Let_def split: option.splits)

lemma grow_end_node_cut_count:
  "WARN_CUT_NODES_FOUND (stats (grow_end_node env node ndata w st)) =
     WARN_CUT_NODES_FOUND (stats st) + (if end_is_cut env w ndata then 1 else 0)"
  by (simp add: grow_end_node_def end_is_cut_def Let_def append_grow_stat_def split: option.splits)

lemma vadjust_x:
  "vadjust_offset_length3 (x, 0, 0) (0, 0, 0) r =
     (if \<bar>x\<bar> > r then (x, 0, 0) else if x = 0 then (0, 0, 0) else (x / \<bar>x\<bar> * r, 0, 0))"
  by (simp add: vadjust_offset_length3_def vsub3_def vlength_x Let_def vnormalize_zero3_def
        vdivs3_def vmuls3_def)

lemmas grow_eval = grow_morphology_def grow_soma_def grow_segment_def
  grow_end_node_def grow_interior_point_def Let_def line_segment_def sample_point_def
  default_options_def vadjust_x vmuls3_def vlength_x distance_squared_x append_grow_stat_def
  is_cut_point_def inside_aabb_iff dd_get_def has_key_def stats0_def


section \<open>Cut points during growth\<close>

text \<open>
  The scenario: soma centre at the origin with radius 5, bounding box from
  \<open>(-100, -100, -100)\<close> to \<open>(100, 100, 100)\<close>; the root 1 at x = 2, a segment from 1 to
  node 2 at x = 50 whose only interior sample is at x = 200, outside the box, and a
  segment from 2 to node 3 at x = 70 with an interior sample at x = 60.
\<close>

definition cut_env :: grow_env where
  "cut_env = \<lparr>dagnodes = [(1, [2]), (2, [3]), (3, [])],
     nodesegments = [(1, [line_segment 1 2 [2, 200, 50]]), (2, [line_segment 2 3 [50, 60, 70]])],
     scentre = (0, 0, 0), sradius = 5,
     options = default_options\<lparr>k_CUTPOINT_AABB := Some ((-100, -100, -100), (100, 100, 100))\<rparr>,
     log_level = 20\<rparr>"

text \<open>The state after \<open>grow_soma\<close> in this scenario, with the root marked visited.\<close>

definition cut_state1 :: grow_state where
  "cut_state1 = \<lparr>nodes = [((2, 0, 0), Soma)], visited = [1], stats = stats0,
     sink = [InsertSurfacePoint (5, 0, 0)], sections = 0\<rparr>"

text \<open>The soma-clip test of the end node: \<open>not morph_options.k_CLIP_INSIDE_SOMA or
  vlength(nposadj) >= sradius + ndata.diameter\<close>.\<close>

definition end_clip_passed :: "grow_env \<Rightarrow> point \<Rightarrow> bool" where
  "end_clip_passed env ndata =
     (\<not> k_CLIP_INSIDE_SOMA (options env)
      \<or> vlength (vadjust_offset_length3 (position ndata) (scentre env)
                   (max 0 (sradius env - diameter ndata)))
           \<ge> sradius env + diameter ndata)"

lemma gip_first:
  "w_section w = None \<Longrightarrow>
   \<exists>first. sink (snd (grow_interior_point env node pt w st)) = sink st @ first
     \<and> (if clip_passed env pt
         then first = [GrowSection node
                 (vmuls3 (vadjust_offset_length3 (position pt) (scentre env) 0)
                    (k_SCALING_FACTOR (options env)))
                 (if (w_is_cut w \<or> is_cut_point (position pt) (k_CUTPOINT_AABB (options env)))
                     \<and> log_level env \<le> 10
                  then debug_scale_cut_point_diameter
                         (diameter pt * k_SCALING_FACTOR (options env))
                         (k_SCALING_FACTOR (options env))
                  else diameter pt * k_SCALING_FACTOR (options env))
                 (Section (sections st))]
              \<and> w_section (fst (grow_interior_point env node pt w st)) = Some (Section (sections st))
              \<and> sections (snd (grow_interior_point env node pt w st)) = sections st + 1
         else first = []
              \<and> w_section (fst (grow_interior_point env node pt w st)) = None
              \<and> sections (snd (grow_interior_point env node pt w st)) = sections st)"
  by (simp add: grow_interior_point_def clip_passed_def Let_def)

lemma grow_end_node_cases:
  "\<exists>evs. sink (grow_end_node env node ndata w st) = sink st @ evs
     \<and> (if has_key (nodes st) (position ndata)
         then nodes (grow_end_node env node ndata w st) = nodes st \<and> evs = []
         else if w_section w \<noteq> None \<or> end_clip_passed env ndata
         then nodes (grow_end_node env node ndata w st)
                          = (position ndata, Section (sections st)) # nodes st
                \<and> evs = GrowNode (case w_section w of Some s \<Rightarrow> s | None \<Rightarrow> node)
                          (position ndata)
                          (vmuls3 (vadjust_offset_length3 (position ndata) (scentre env)
                                     (max 0 (sradius env - diameter ndata)))
                             (k_SCALING_FACTOR (options env)))
                          (if end_is_cut env w ndata \<and> log_level env \<le> 10
                           then debug_scale_cut_point_diameter
                                  (diameter ndata * k_SCALING_FACTOR (options env))
                                  (k_SCALING_FACTOR (options env))
                           else diameter ndata * k_SCALING_FACTOR (options env))
                          (Section (sections st))
                         # (if end_is_cut env w ndata then [MarkCutPoint (Section (sections st))] else [])
         else nodes (grow_end_node env node ndata w st) = (position ndata, node) # nodes st
              \<and> evs = [])"
  by (simp add: grow_end_node_def end_clip_passed_def end_is_cut_def Let_def split: option.splits)

text \<open>
  A second scenario: soma centre at the origin with radius 10, the box ends at x = 8;
  the root 1 at x = 2 and a segment to node 2 at x = 10.5 whose interior sample is at
  x = 9, outside the box. Neither the interior sample nor the end node passes the
  soma-clip test.
\<close>

definition clipped_cut_env :: grow_env where
  "clipped_cut_env = \<lparr>dagnodes = [(1, [2]), (2, [])],
     nodesegments = [(1, [line_segment 1 2 [2, 9, 21 / 2]])],
     scentre = (0, 0, 0), sradius = 10,
     options = default_options\<lparr>k_CUTPOINT_AABB := Some ((-100, -100, -100), (8, 100, 100))\<rparr>,
     log_level = 20\<rparr>"

definition clipped_cut_state1 :: grow_state where
  "clipped_cut_state1 = \<lparr>nodes = [((2, 0, 0), Soma)], visited = [1], stats = stats0,
     sink = [InsertSurfacePoint (10, 0, 0)], sections = 0\<rparr>"

lemma cut_segment_result:
  "nodes (grow_segment cut_env Soma (line_segment 1 2 [2, 200, 50]) cut_state1)
     = [((50, 0, 0), Section 1), ((2, 0, 0), Soma)]
   \<and> sink (grow_segment cut_env Soma (line_segment 1 2 [2, 200, 50]) cut_state1)
     = [InsertSurfacePoint (5, 0, 0), GrowSection Soma (200, 0, 0) 1 (Section 0),
        GrowNode (Section 0) (50, 0, 0) (50, 0, 0) 1 (Section 1), MarkCutPoint (Section 1)]"
  by (simp add: cut_env_def cut_state1_def grow_eval)

lemma clipped_cut_segment_result:
  "nodes (grow_segment clipped_cut_env Soma (line_segment 1 2 [2, 9, 21 / 2]) clipped_cut_state1)
     = [((21 / 2, 0, 0), Soma), ((2, 0, 0), Soma)]
   \<and> sink (grow_segment clipped_cut_env Soma (line_segment 1 2 [2, 9, 21 / 2]) clipped_cut_state1)
     = [InsertSurfacePoint (10, 0, 0)]"
  by (simp add: clipped_cut_env_def clipped_cut_state1_def grow_eval)

lemma clipped_cut_soma:
  "grow_soma clipped_cut_env [1] grow_state0 = Inr (clipped_cut_state1\<lparr>visited := []\<rparr>)"
  by (simp add: clipped_cut_env_def clipped_cut_state1_def grow_state0_def grow_eval)

text \<open>
  C4 (as the code has it). When the start sample of a segment is inside the box and its
  second sample, an interior one, is outside: the walk over the interior samples stops
  at that sample, which is grown as a new section from the handle of the start node
  when it passes the soma-clip test and not grown otherwise; the cut counter is
  incremented twice, once in the loop and once more at the end node; \<open>is_parent_cut\<close>
  stays false, so the recursion into the children of the node goes on; and the end node
  of the segment has an entry in \<open>nodes\<close> afterwards. If it had one already, nothing is
  bound and nothing more is sent to the sink. Otherwise, when the cut sample was grown
  the end node is grown from the section of that sample, bound to the new section and
  marked as a cut point; when the cut sample was not grown and the end node passes its
  soma-clip test, the end node is grown from the handle of the start node, bound to
  the new section and marked as a cut point; and when neither passes, the end node is
  bound to the handle of the start node with no grow call and no mark.
\<close>

theorem cut_at_second_sample:
  assumes "start segm = pnode_idx" "3 \<le> length (points segm)"
    and "map_of (nodes st) (position (points segm ! 0)) = Some node"
    and "\<not> is_cut_point (position (points segm ! 0)) (k_CUTPOINT_AABB (options env))"
    and "is_cut_point (position (points segm ! 1)) (k_CUTPOINT_AABB (options env))"
  shows "grow_node_segments env pnode_idx [segm] False st = Inr (False, grow_segment env node segm st)
     \<and> WARN_CUT_NODES_FOUND (stats (grow_segment env node segm st))
         = WARN_CUT_NODES_FOUND (stats st) + 2
     \<and> has_key (nodes (grow_segment env node segm st)) (position (last (points segm)))
     \<and> interior_points_grown env node segm st = (if clip_passed env (points segm ! 1) then 1 else 0)
     \<and> (\<exists>first evs. sink (grow_segment env node segm st) = sink st @ first @ evs
          \<and> (if clip_passed env (points segm ! 1)
              then \<exists>spos d. first = [GrowSection node spos d (Section (sections st))]
              else first = [])
          \<and> (if has_key (nodes st) (position (last (points segm)))
              then nodes (grow_segment env node segm st) = nodes st \<and> evs = []
              else if clip_passed env (points segm ! 1)
              then \<exists>spos d. nodes (grow_segment env node segm st)
                       = (position (last (points segm)), Section (sections st + 1)) # nodes st
                     \<and> evs = [GrowNode (Section (sections st)) (position (last (points segm)))
                                 spos d (Section (sections st + 1)),
                              MarkCutPoint (Section (sections st + 1))]
              else if end_clip_passed env (last (points segm))
              then \<exists>spos d. nodes (grow_segment env node segm st)
                       = (position (last (points segm)), Section (sections st)) # nodes st
                     \<and> evs = [GrowNode node (position (last (points segm)))
                                 spos d (Section (sections st)),
                              MarkCutPoint (Section (sections st))]
              else nodes (grow_segment env node segm st)
                       = (position (last (points segm)), node) # nodes st
                   \<and> evs = []))"
proof -
  obtain p0 p1 p2 rest where pts: "points segm = p0 # p1 # p2 # rest"
    using assms(2) by (cases "points segm"; cases "tl (points segm)"; cases "tl (tl (points segm))") auto
  have interior: "butlast (tl (points segm)) = p1 # butlast (p2 # rest)" by (simp add: pts)
  have p1: "points segm ! 1 = p1" by (simp add: pts)
  let ?w0 = "\<lparr>w_section = None, w_prev_pos = (0, 0, 0), w_is_cut = False\<rparr>"
  let ?r = "grow_interior_point env node p1 ?w0 st"
  let ?pl = "last (points segm)"
  let ?fin = "grow_segment env node segm st"
  have cut1: "w_is_cut (fst ?r)" using assms(5) by (simp add: gip_cut pts)
  have gi: "grow_interior env node (butlast (tl (points segm))) ?w0 st = ?r"
    unfolding interior using cut1 by (simp add: split_beta)
  have seg: "?fin = grow_end_node env node ?pl (fst ?r) (snd ?r)"
    by (simp add: grow_segment_def gi split_beta)
  have c1: "WARN_CUT_NODES_FOUND (stats (snd ?r)) = WARN_CUT_NODES_FOUND (stats st) + 1"
    using cut1 by (simp add: gip_cut_count)
  have c2: "WARN_CUT_NODES_FOUND (stats ?fin) = WARN_CUT_NODES_FOUND (stats st) + 2"
    using cut1 c1 by (simp add: seg grow_end_node_cut_count end_is_cut_def)
  have k: "has_key (nodes ?fin) (position ?pl)"
    by (simp add: seg grow_end_node_key)
  have n: "interior_points_grown env node segm st = (if clip_passed env (points segm ! 1) then 1 else 0)"
    unfolding p1 by (simp add: interior_points_grown_def walk0_def gi gip_count)
  have g: "grow_node_segments env pnode_idx [segm] False st = Inr (False, ?fin)"
    using assms(1,3,4) by (simp add: pts Let_def)
  define spos1 where "spos1 = vmuls3 (vadjust_offset_length3 (position p1) (scentre env) 0)
                    (k_SCALING_FACTOR (options env))"
  define d1 where "d1 = (if is_cut_point (position p1) (k_CUTPOINT_AABB (options env))
                     \<and> log_level env \<le> 10
                  then debug_scale_cut_point_diameter
                         (diameter p1 * k_SCALING_FACTOR (options env))
                         (k_SCALING_FACTOR (options env))
                  else diameter p1 * k_SCALING_FACTOR (options env))"
  define sposl where "sposl = vmuls3 (vadjust_offset_length3 (position ?pl) (scentre env)
                                     (max 0 (sradius env - diameter ?pl)))
                             (k_SCALING_FACTOR (options env))"
  define dl where "dl = (if end_is_cut env (fst ?r) ?pl \<and> log_level env \<le> 10
                           then debug_scale_cut_point_diameter
                                  (diameter ?pl * k_SCALING_FACTOR (options env))
                                  (k_SCALING_FACTOR (options env))
                           else diameter ?pl * k_SCALING_FACTOR (options env))"
  obtain first where first: "sink (snd ?r) = sink st @ first"
    "if clip_passed env p1
         then first = [GrowSection node spos1 d1 (Section (sections st))]
              \<and> w_section (fst ?r) = Some (Section (sections st))
              \<and> sections (snd ?r) = sections st + 1
         else first = []
              \<and> w_section (fst ?r) = None
              \<and> sections (snd ?r) = sections st"
    using gip_first [of ?w0 env node p1 st] unfolding spos1_def d1_def by auto
  obtain evs where evs: "sink ?fin = sink (snd ?r) @ evs"
    "if has_key (nodes (snd ?r)) (position ?pl)
         then nodes ?fin = nodes (snd ?r) \<and> evs = []
         else if w_section (fst ?r) \<noteq> None \<or> end_clip_passed env ?pl
         then nodes ?fin = (position ?pl, Section (sections (snd ?r))) # nodes (snd ?r)
                \<and> evs = GrowNode (case w_section (fst ?r) of Some s \<Rightarrow> s | None \<Rightarrow> node)
                               (position ?pl) sposl dl (Section (sections (snd ?r)))
                         # (if end_is_cut env (fst ?r) ?pl then [MarkCutPoint (Section (sections (snd ?r)))] else [])
         else nodes ?fin = (position ?pl, node) # nodes (snd ?r) \<and> evs = []"
    using grow_end_node_cases [of env node ?pl "fst ?r" "snd ?r"]
    unfolding seg sposl_def dl_def by blast
  have ec: "end_is_cut env (fst ?r) ?pl" using cut1 by (simp add: end_is_cut_def)
  have nr: "nodes (snd ?r) = nodes st" by simp
  have s: "sink ?fin = sink st @ first @ evs" using first(1) evs(1) by simp
  have f: "if clip_passed env (points segm ! 1)
              then \<exists>spos d. first = [GrowSection node spos d (Section (sections st))]
              else first = []"
    using first(2) unfolding p1
    by (cases "clip_passed env p1") (simp_all del: split_paired_Ex)
  have e: "if has_key (nodes st) (position ?pl)
              then nodes ?fin = nodes st \<and> evs = []
              else if clip_passed env (points segm ! 1)
              then \<exists>spos d. nodes ?fin = (position ?pl, Section (sections st + 1)) # nodes st
                     \<and> evs = [GrowNode (Section (sections st)) (position ?pl)
                                 spos d (Section (sections st + 1)),
                              MarkCutPoint (Section (sections st + 1))]
              else if end_clip_passed env ?pl
              then \<exists>spos d. nodes ?fin = (position ?pl, Section (sections st)) # nodes st
                     \<and> evs = [GrowNode node (position ?pl) spos d (Section (sections st)),
                              MarkCutPoint (Section (sections st))]
              else nodes ?fin = (position ?pl, node) # nodes st \<and> evs = []"
  proof (cases "has_key (nodes st) (position ?pl)")
    case True
    then show ?thesis using evs(2) unfolding nr by simp
  next
    case nk: False
    show ?thesis
    proof (cases "clip_passed env p1")
      case True
      then have "w_section (fst ?r) = Some (Section (sections st))"
        "sections (snd ?r) = sections st + 1" using first(2) by simp_all
      then show ?thesis using evs(2) nk True ec unfolding nr p1
        by (simp del: split_paired_Ex)
    next
      case False
      then have "w_section (fst ?r) = None" "sections (snd ?r) = sections st"
        using first(2) by simp_all
      then show ?thesis using evs(2) nk False ec unfolding nr p1
        by (simp del: split_paired_Ex)
    qed
  qed
  from s f e have "\<exists>first evs. sink ?fin = sink st @ first @ evs
          \<and> (if clip_passed env (points segm ! 1)
              then \<exists>spos d. first = [GrowSection node spos d (Section (sections st))]
              else first = [])
          \<and> (if has_key (nodes st) (position ?pl)
              then nodes ?fin = nodes st \<and> evs = []
              else if clip_passed env (points segm ! 1)
              then \<exists>spos d. nodes ?fin = (position ?pl, Section (sections st + 1)) # nodes st
                     \<and> evs = [GrowNode (Section (sections st)) (position ?pl)
                                 spos d (Section (sections st + 1)),
                              MarkCutPoint (Section (sections st + 1))]
              else if end_clip_passed env ?pl
              then \<exists>spos d. nodes ?fin = (position ?pl, Section (sections st)) # nodes st
                     \<and> evs = [GrowNode node (position ?pl) spos d (Section (sections st)),
                              MarkCutPoint (Section (sections st))]
              else nodes ?fin = (position ?pl, node) # nodes st \<and> evs = [])"
    by blast
  with g c2 k n show ?thesis by blast
qed

theorem cut_at_second_sample_witness:
  "start (line_segment 1 2 [2, 200, 50]) = 1
   \<and> 3 \<le> length (points (line_segment 1 2 [2, 200, 50]))
   \<and> map_of (nodes cut_state1) (position (points (line_segment 1 2 [2, 200, 50]) ! 0)) = Some Soma
   \<and> \<not> is_cut_point (position (points (line_segment 1 2 [2, 200, 50]) ! 0))
         (k_CUTPOINT_AABB (options cut_env))
   \<and> is_cut_point (position (points (line_segment 1 2 [2, 200, 50]) ! 1))
         (k_CUTPOINT_AABB (options cut_env))
   \<and> WARN_CUT_NODES_FOUND (stats (grow_segment cut_env Soma (line_segment 1 2 [2, 200, 50]) cut_state1)) = 2
   \<and> has_key (nodes (grow_segment cut_env Soma (line_segment 1 2 [2, 200, 50]) cut_state1)) (50, 0, 0)
   \<and> interior_points_grown cut_env Soma (line_segment 1 2 [2, 200, 50]) cut_state1 = 1
   \<and> nodes (grow_segment cut_env Soma (line_segment 1 2 [2, 200, 50]) cut_state1)
       = [((50, 0, 0), Section 1), ((2, 0, 0), Soma)]
   \<and> sink (grow_segment cut_env Soma (line_segment 1 2 [2, 200, 50]) cut_state1)
       = [InsertSurfacePoint (5, 0, 0), GrowSection Soma (200, 0, 0) 1 (Section 0),
          GrowNode (Section 0) (50, 0, 0) (50, 0, 0) 1 (Section 1), MarkCutPoint (Section 1)]
   \<and> start (line_segment 1 2 [2, 9, 21 / 2]) = 1
   \<and> 3 \<le> length (points (line_segment 1 2 [2, 9, 21 / 2]))
   \<and> map_of (nodes clipped_cut_state1) (position (points (line_segment 1 2 [2, 9, 21 / 2]) ! 0))
       = Some Soma
   \<and> \<not> is_cut_point (position (points (line_segment 1 2 [2, 9, 21 / 2]) ! 0))
         (k_CUTPOINT_AABB (options clipped_cut_env))
   \<and> is_cut_point (position (points (line_segment 1 2 [2, 9, 21 / 2]) ! 1))
         (k_CUTPOINT_AABB (options clipped_cut_env))
   \<and> WARN_CUT_NODES_FOUND (stats (grow_segment clipped_cut_env Soma
         (line_segment 1 2 [2, 9, 21 / 2]) clipped_cut_state1)) = 2
   \<and> interior_points_grown clipped_cut_env Soma (line_segment 1 2 [2, 9, 21 / 2])
         clipped_cut_state1 = 0
   \<and> nodes (grow_segment clipped_cut_env Soma (line_segment 1 2 [2, 9, 21 / 2]) clipped_cut_state1)
       = [((21 / 2, 0, 0), Soma), ((2, 0, 0), Soma)]
   \<and> sink (grow_segment clipped_cut_env Soma (line_segment 1 2 [2, 9, 21 / 2]) clipped_cut_state1)
       = [InsertSurfacePoint (10, 0, 0)]"
proof -
  have h1: "start (line_segment 1 2 [2, 200, 50]) = 1"
    and h2: "3 \<le> length (points (line_segment 1 2 [2, 200, 50]))"
    and h3: "map_of (nodes cut_state1) (position (points (line_segment 1 2 [2, 200, 50]) ! 0)) = Some Soma"
    and h4: "\<not> is_cut_point (position (points (line_segment 1 2 [2, 200, 50]) ! 0))
         (k_CUTPOINT_AABB (options cut_env))"
    and h5: "is_cut_point (position (points (line_segment 1 2 [2, 200, 50]) ! 1))
         (k_CUTPOINT_AABB (options cut_env))"
    by (simp_all add: line_segment_def sample_point_def cut_state1_def cut_env_def
          default_options_def is_cut_point_def inside_aabb_iff)
  have k1: "start (line_segment 1 2 [2, 9, 21 / 2]) = 1"
    and k2: "3 \<le> length (points (line_segment 1 2 [2, 9, 21 / 2]))"
    and k3: "map_of (nodes clipped_cut_state1) (position (points (line_segment 1 2 [2, 9, 21 / 2]) ! 0))
       = Some Soma"
    and k4: "\<not> is_cut_point (position (points (line_segment 1 2 [2, 9, 21 / 2]) ! 0))
         (k_CUTPOINT_AABB (options clipped_cut_env))"
    and k5: "is_cut_point (position (points (line_segment 1 2 [2, 9, 21 / 2]) ! 1))
         (k_CUTPOINT_AABB (options clipped_cut_env))"
    by (simp_all add: line_segment_def sample_point_def clipped_cut_state1_def clipped_cut_env_def
          default_options_def is_cut_point_def inside_aabb_iff)
  have l: "position (last (points (line_segment 1 2 [2, 200, 50]))) = (50, 0, 0)"
    by (simp add: line_segment_def sample_point_def)
  have c: "WARN_CUT_NODES_FOUND (stats cut_state1) = 0"
      "WARN_CUT_NODES_FOUND (stats clipped_cut_state1) = 0"
    by (simp_all add: cut_state1_def clipped_cut_state1_def stats0_def)
  have cp: "clip_passed cut_env (points (line_segment 1 2 [2, 200, 50]) ! 1)"
      "\<not> clip_passed clipped_cut_env (points (line_segment 1 2 [2, 9, 21 / 2]) ! 1)"
    by (simp_all add: clip_passed_def cut_env_def clipped_cut_env_def line_segment_def
          sample_point_def default_options_def vadjust_x vlength_x)
  note t = cut_at_second_sample [OF h1 h2 h3 h4 h5]
  note u = cut_at_second_sample [OF k1 k2 k3 k4 k5]
  note t2 = t [THEN conjunct2, THEN conjunct1]
  note t3 = t [THEN conjunct2, THEN conjunct2, THEN conjunct1]
  note t4 = t [THEN conjunct2, THEN conjunct2, THEN conjunct2, THEN conjunct1]
  note u2 = u [THEN conjunct2, THEN conjunct1]
  note u4 = u [THEN conjunct2, THEN conjunct2, THEN conjunct2, THEN conjunct1]
  have a: "WARN_CUT_NODES_FOUND (stats (grow_segment cut_env Soma (line_segment 1 2 [2, 200, 50]) cut_state1)) = 2"
    using t2 c by simp
  have b: "has_key (nodes (grow_segment cut_env Soma (line_segment 1 2 [2, 200, 50]) cut_state1)) (50, 0, 0)"
    using t3 l by simp
  have d: "interior_points_grown cut_env Soma (line_segment 1 2 [2, 200, 50]) cut_state1 = 1"
    using t4 cp by simp
  have a': "WARN_CUT_NODES_FOUND (stats (grow_segment clipped_cut_env Soma
         (line_segment 1 2 [2, 9, 21 / 2]) clipped_cut_state1)) = 2"
    using u2 c by simp
  have d': "interior_points_grown clipped_cut_env Soma (line_segment 1 2 [2, 9, 21 / 2])
         clipped_cut_state1 = 0"
    using u4 cp by simp
  from h1 h2 h3 h4 h5 k1 k2 k3 k4 k5 a b d a' d' cut_segment_result clipped_cut_segment_result
  show ?thesis by blast
qed

theorem cut_second_sample_counterexample:
  "case grow_morphology (Suc (Suc (Suc (Suc 0)))) cut_env [1] (-1) stats0 of
     Inl e \<Rightarrow> False
   | Inr st \<Rightarrow> WARN_CUT_NODES_FOUND (stats st) = 2
               \<and> has_key (nodes st) (50, 0, 0) \<and> has_key (nodes st) (70, 0, 0)
               \<and> visited st = [1, 2, 3]"
  by (simp add: cut_env_def grow_eval)

section \<open>Single growth\<close>

text \<open>
  The \<open>grow\<close> calls whose result became the handle of a node, in the order of the
  calls: each with the raw position of the node and the section it returned.
\<close>

fun node_grows :: "event list \<Rightarrow> (vec3 \<times> handle) list" where
  "node_grows [] = []"
| "node_grows (GrowNode parent npos pos d new # evs) = (npos, new) # node_grows evs"
| "node_grows (e # evs) = node_grows evs"

lemma node_grows_append [simp]: "node_grows (xs @ ys) = node_grows xs @ node_grows ys"
  by (induction xs rule: node_grows.induct) simp_all

text \<open>
  \<open>grows_fresh st st'\<close>: the dictionary \<open>nodes\<close> of \<open>st'\<close> is that of \<open>st\<close> with new
  bindings put in front, each for a position of its own that had no binding in \<open>st\<close>;
  the sink has only received further calls, and among them the \<open>grow\<close> calls made for a
  node are for pairwise different positions, each the call of one of the new bindings.
\<close>

definition grows_fresh :: "grow_state \<Rightarrow> grow_state \<Rightarrow> bool" where
  "grows_fresh st st' =
     (\<exists>new added. nodes st' = new @ nodes st \<and> sink st' = sink st @ added
          \<and> distinct (map fst new)
          \<and> set (map fst new) \<inter> set (map fst (nodes st)) = {}
          \<and> distinct (map fst (node_grows added))
          \<and> set (node_grows added) \<subseteq> set new)"

lemma grows_fresh_same:
  "nodes st' = nodes st \<Longrightarrow> sink st' = sink st @ added \<Longrightarrow> node_grows added = [] \<Longrightarrow>
   grows_fresh st st'"
  unfolding grows_fresh_def by (intro exI [of _ "[]"] exI [of _ added]) simp

lemma grows_fresh_refl: "nodes st' = nodes st \<Longrightarrow> sink st' = sink st \<Longrightarrow> grows_fresh st st'"
  by (rule grows_fresh_same [where added = "[]"]) simp_all

lemma grows_fresh_trans: "grows_fresh a b \<Longrightarrow> grows_fresh b c \<Longrightarrow> grows_fresh a c"
proof -
  assume "grows_fresh a b" "grows_fresh b c"
  then obtain n1 a1 n2 a2 where
    1: "nodes b = n1 @ nodes a" "sink b = sink a @ a1" "distinct (map fst n1)"
       "set (map fst n1) \<inter> set (map fst (nodes a)) = {}"
       "distinct (map fst (node_grows a1))" "set (node_grows a1) \<subseteq> set n1"
    and 2: "nodes c = n2 @ nodes b" "sink c = sink b @ a2" "distinct (map fst n2)"
       "set (map fst n2) \<inter> set (map fst (nodes b)) = {}"
       "distinct (map fst (node_grows a2))" "set (node_grows a2) \<subseteq> set n2"
    unfolding grows_fresh_def by blast
  have k1: "set (map fst (node_grows a1)) \<subseteq> set (map fst n1)"
    and k2: "set (map fst (node_grows a2)) \<subseteq> set (map fst n2)"
    using 1(6) 2(6) by auto
  have dis: "set (map fst n2) \<inter> set (map fst n1) = {}" using 1(1) 2(4) by auto
  have "nodes c = (n2 @ n1) @ nodes a" using 1 2 by simp
  moreover have "sink c = sink a @ (a1 @ a2)" using 1 2 by simp
  moreover have "distinct (map fst (n2 @ n1))" using 1(3) 2(3) dis by auto
  moreover have "set (map fst (n2 @ n1)) \<inter> set (map fst (nodes a)) = {}"
    using 1(1,4) 2(4) by auto
  moreover have "distinct (map fst (node_grows (a1 @ a2)))"
    using 1(5) 2(5) k1 k2 dis by (simp add: disjoint_iff subset_iff) blast
  moreover have "set (node_grows (a1 @ a2)) \<subseteq> set (n2 @ n1)" using 1(6) 2(6) by auto
  ultimately show ?thesis unfolding grows_fresh_def by blast
qed

lemma gip_sink:
  "\<exists>added. sink (snd (grow_interior_point env node pt w st)) = sink st @ added
      \<and> node_grows added = []"
  by (auto simp: grow_interior_point_def Let_def split: option.splits prod.splits)

lemma grow_interior_sink:
  "\<exists>added. sink (snd (grow_interior env node pts w st)) = sink st @ added
      \<and> node_grows added = []"
proof (induction pts arbitrary: w st)
  case Nil
  then show ?case by simp
next
  case (Cons pt pts)
  let ?r = "grow_interior_point env node pt w st"
  obtain a1 where a1: "sink (snd ?r) = sink st @ a1" "node_grows a1 = []"
    using gip_sink by blast
  show ?case
  proof (cases "w_is_cut (fst ?r)")
    case True
    then show ?thesis using a1 by (simp add: split_beta)
  next
    case False
    from Cons.IH [of "fst ?r" "snd ?r"] obtain a2 where
      "sink (snd (grow_interior env node pts (fst ?r) (snd ?r))) = sink (snd ?r) @ a2"
      "node_grows a2 = []" by blast
    then have "sink (snd (grow_interior env node pts (fst ?r) (snd ?r))) = sink st @ (a1 @ a2)
        \<and> node_grows (a1 @ a2) = []" using a1 by simp
    then show ?thesis using False by (simp add: split_beta)
  qed
qed

lemma grow_interior_fresh: "grows_fresh st (snd (grow_interior env node pts w st))"
  using grow_interior_sink [of env node pts w st]
  by (auto intro: grows_fresh_same)

lemma grow_end_node_grows: "grows_fresh st (grow_end_node env node ndata w st)"
proof (cases "has_key (nodes st) (position ndata)")
  case True
  then show ?thesis
    by (intro grows_fresh_refl) (simp_all add: grow_end_node_def Let_def)
next
  case False
  then have nk: "position ndata \<notin> set (map fst (nodes st))" by (simp add: has_key_def)
  let ?st' = "grow_end_node env node ndata w st"
  have "\<exists>h added. nodes ?st' = [(position ndata, h)] @ nodes st \<and> sink ?st' = sink st @ added
      \<and> (node_grows added = [] \<or> node_grows added = [(position ndata, h)])"
    using False by (auto simp: grow_end_node_def Let_def split: option.splits)
  then obtain h added where
    "nodes ?st' = [(position ndata, h)] @ nodes st" "sink ?st' = sink st @ added"
    "node_grows added = [] \<or> node_grows added = [(position ndata, h)]" by blast
  then show ?thesis using nk unfolding grows_fresh_def
    by (intro exI [of _ "[(position ndata, h)]"] exI [of _ added]) auto
qed

lemma grow_segment_grows: "grows_fresh st (grow_segment env node segm st)"
  unfolding grow_segment_def Let_def split_beta
  by (rule grows_fresh_trans [OF grow_interior_fresh grow_end_node_grows])

lemma grow_node_segments_grows:
  "grow_node_segments env p segs b st = Inr (b', st') \<Longrightarrow> grows_fresh st st'"
proof (induction segs arbitrary: b st)
  case Nil
  then show ?case by (simp add: grows_fresh_refl)
next
  case (Cons segm segs)
  show ?case
  proof (cases "start segm \<noteq> p")
    case True
    then show ?thesis using Cons.prems by simp
  next
    case sp: False
    show ?thesis
    proof (cases "length (points segm) < 2")
      case True
      then show ?thesis using Cons sp by simp
    next
      case False
      show ?thesis
      proof (cases "map_of (nodes st) (position (hd (points segm)))")
        case None
        then show ?thesis using Cons.prems sp False by (simp add: Let_def)
      next
        case (Some node)
        show ?thesis
        proof (cases "b \<or> is_cut_point (position (hd (points segm))) (k_CUTPOINT_AABB (options env))")
          case True
          then show ?thesis using Cons.prems sp False Some by (auto simp: Let_def grows_fresh_refl)
        next
          case nc: False
          then have "grow_node_segments env p segs False (grow_segment env node segm st) = Inr (b', st')"
            using Cons.prems sp False Some by (simp add: Let_def)
          from Cons.IH [OF this] grow_segment_grows [of st env node segm]
          show ?thesis by (blast intro: grows_fresh_trans)
        qed
      qed
    qed
  qed
qed

lemma fold_Inl:
  "fold (\<lambda>c r. case r of Inl e \<Rightarrow> Inl e | Inr s \<Rightarrow> f c s) cs (Inl e) = Inl e"
  by (induction cs) simp_all

lemma fold_grows:
  assumes "\<And>c s s'. f c s = Inr s' \<Longrightarrow> grows_fresh s s'"
  shows "fold (\<lambda>c r. case r of Inl e \<Rightarrow> Inl e | Inr s \<Rightarrow> f c s) cs (Inr st) = Inr st'
         \<Longrightarrow> grows_fresh st st'"
proof (induction cs arbitrary: st)
  case Nil
  then show ?case by (simp add: grows_fresh_refl)
next
  case (Cons c cs)
  show ?case
  proof (cases "f c st")
    case (Inl e)
    then show ?thesis using Cons.prems by (simp add: fold_Inl)
  next
    case (Inr s1)
    then have "fold (\<lambda>c r. case r of Inl e \<Rightarrow> Inl e | Inr s \<Rightarrow> f c s) cs (Inr s1) = Inr st'"
      using Cons.prems by simp
    from Cons.IH [OF this] assms [OF Inr] show ?thesis by (blast intro: grows_fresh_trans)
  qed
qed

lemma grow_segments_grows:
  "grow_segments limit env p depth st = Inr st' \<Longrightarrow> grows_fresh st st'"
proof (induction limit arbitrary: p depth st st')
  case 0
  then show ?case by simp
next
  case (Suc limit)
  show ?case
  proof (cases "depth = 0")
    case True
    then show ?thesis using Suc.prems by (auto simp: grows_fresh_refl)
  next
    case d: False
    show ?thesis
    proof (cases "p \<in> set (visited st)")
      case True
      then show ?thesis using Suc.prems d by (auto simp: grows_fresh_refl)
    next
      case v: False
      let ?st0 = "st\<lparr>visited := visited st @ [p]\<rparr>"
      show ?thesis
      proof (cases "grow_node_segments env p (dd_get (nodesegments env) p) False ?st0")
        case (Inl e)
        then show ?thesis using Suc.prems d v by simp
      next
        case (Inr r)
        obtain cut st1 where r: "r = (cut, st1)" by (cases r)
        have f1: "grows_fresh st st1"
          using grow_node_segments_grows [of env p _ False ?st0 cut st1] Inr r
          by (simp add: grows_fresh_def)
        show ?thesis
        proof (cases cut)
          case True
          then show ?thesis using Suc.prems d v Inr r f1 by simp
        next
          case nc: False
          show ?thesis
          proof (cases "map_of (dagnodes env) p")
            case None
            then show ?thesis using Suc.prems d v Inr r nc by simp
          next
            case (Some children)
            have folded: "fold (\<lambda>cn_idx r. case r of Inl e \<Rightarrow> Inl e
                     | Inr s \<Rightarrow> grow_segments limit env cn_idx (if depth > 0 then depth - 1 else -1) s)
                    children (Inr st1) = Inr st'"
              using Suc.prems d v Inr r nc Some by simp
            have step: "\<And>c s s'. grow_segments limit env c (if depth > 0 then depth - 1 else -1) s = Inr s'
                \<Longrightarrow> grows_fresh s s'"
              by (rule Suc.IH)
            have "grows_fresh st1 st'"
              by (rule fold_grows [where f = "\<lambda>c s. grow_segments limit env c
                     (if depth > 0 then depth - 1 else -1) s", OF step folded])
            with f1
            show ?thesis by (blast intro: grows_fresh_trans)
          qed
        qed
      qed
    qed
  qed
qed

lemma grow_roots_grows:
  "grow_roots limit env roots depth st = Inr st' \<Longrightarrow> grows_fresh st st'"
proof (induction roots arbitrary: st)
  case Nil
  then show ?case by (simp add: grows_fresh_refl)
next
  case (Cons r roots)
  then show ?case
    by (auto split: sum.splits dest!: grow_segments_grows intro: grows_fresh_trans)
qed

text \<open>
  The root stage. \<open>root_samples\<close> are the positions of the first samples of the
  segments of the soma nodes, in the order \<open>grow_soma\<close> goes through them;
  \<open>binds_roots env ps st st'\<close>: one binding has been put in front of \<open>nodes\<close> for every
  position of \<open>ps\<close>, in that order, to the soma when the soma is inflated, and otherwise
  each to the section of a \<open>grow\<close> call of its own.
\<close>

definition root_samples :: "grow_env \<Rightarrow> int list \<Rightarrow> vec3 list" where
  "root_samples env somanodes =
     concat (map (\<lambda>n. map (\<lambda>s. position (hd (points s))) (dd_get (nodesegments env) n)) somanodes)"

definition binds_roots :: "grow_env \<Rightarrow> vec3 list \<Rightarrow> grow_state \<Rightarrow> grow_state \<Rightarrow> bool" where
  "binds_roots env ps st st' =
     (\<exists>new added. nodes st' = new @ nodes st \<and> sink st' = sink st @ added
        \<and> map fst new = rev ps
        \<and> (if k_INFLATE_SOMA (options env)
           then node_grows added = [] \<and> map snd new = replicate (length ps) Soma
           else node_grows added = rev new
                \<and> map snd new = rev (map Section [sections st ..< sections st + length ps]))
        \<and> sections st' = sections st + (if k_INFLATE_SOMA (options env) then 0 else length ps))"

lemma binds_roots_Nil: "nodes st' = nodes st \<Longrightarrow> sink st' = sink st @ added \<Longrightarrow>
  node_grows added = [] \<Longrightarrow> sections st' = sections st \<Longrightarrow> binds_roots env [] st st'"
  unfolding binds_roots_def by (intro exI [of _ "[]"] exI [of _ added]) simp

lemma binds_roots_append:
  assumes "binds_roots env ps a b" "binds_roots env qs b c"
  shows "binds_roots env (ps @ qs) a c"
proof -
  from assms obtain n1 a1 n2 a2 where
    1: "nodes b = n1 @ nodes a" "sink b = sink a @ a1" "map fst n1 = rev ps"
       "if k_INFLATE_SOMA (options env)
           then node_grows a1 = [] \<and> map snd n1 = replicate (length ps) Soma
           else node_grows a1 = rev n1
                \<and> map snd n1 = rev (map Section [sections a ..< sections a + length ps])"
       "sections b = sections a + (if k_INFLATE_SOMA (options env) then 0 else length ps)"
    and 2: "nodes c = n2 @ nodes b" "sink c = sink b @ a2" "map fst n2 = rev qs"
       "if k_INFLATE_SOMA (options env)
           then node_grows a2 = [] \<and> map snd n2 = replicate (length qs) Soma
           else node_grows a2 = rev n2
                \<and> map snd n2 = rev (map Section [sections b ..< sections b + length qs])"
       "sections c = sections b + (if k_INFLATE_SOMA (options env) then 0 else length qs)"
    unfolding binds_roots_def by blast
  have "nodes c = (n2 @ n1) @ nodes a" using 1 2 by simp
  moreover have "sink c = sink a @ (a1 @ a2)" using 1 2 by simp
  moreover have "map fst (n2 @ n1) = rev (ps @ qs)" using 1 2 by simp
  moreover have "if k_INFLATE_SOMA (options env)
           then node_grows (a1 @ a2) = [] \<and> map snd (n2 @ n1) = replicate (length (ps @ qs)) Soma
           else node_grows (a1 @ a2) = rev (n2 @ n1)
                \<and> map snd (n2 @ n1) = rev (map Section [sections a ..< sections a + length (ps @ qs)])"
  proof (cases "k_INFLATE_SOMA (options env)")
    case True
    then show ?thesis using 1(4) 2(4) by (simp add: replicate_add [symmetric] add.commute)
  next
    case False
    have "[sections a ..< sections a + (length ps + length qs)]
          = [sections a ..< sections a + length ps]
            @ [sections a + length ps ..< sections a + length ps + length qs]"
      using upt_add_eq_append [of "sections a" "sections a + length ps" "length qs"] by (simp add: add.assoc)
    then show ?thesis using False 1(4,5) 2(4) by simp
  qed
  moreover have "sections c = sections a + (if k_INFLATE_SOMA (options env) then 0 else length (ps @ qs))"
    using 1 2 by simp
  ultimately show ?thesis unfolding binds_roots_def by blast
qed

lemma grow_soma_segments_binds:
  "grow_soma_segments env n segs st = Inr st' \<Longrightarrow>
   binds_roots env (map (\<lambda>s. position (hd (points s))) segs) st st'"
proof (induction segs arbitrary: st)
  case Nil
  then show ?case by (auto intro: binds_roots_Nil [where added = "[]"])
next
  case (Cons segm segs)
  from Cons.prems have st: "start segm = n" by (auto split: if_splits)
  from Cons.prems st obtain ndata others where pts: "points segm = ndata # others"
    by (cases "points segm") auto
  let ?npos = "position ndata"
  show ?case
  proof (cases "k_INFLATE_SOMA (options env)")
    case True
    let ?s1 = "st\<lparr>sink := sink st @ [InsertSurfacePoint (vmuls3 (vadjust_offset_length3 ?npos (scentre env) (sradius env)) (k_SCALING_FACTOR (options env)))],
                         nodes := (?npos, Soma) # nodes st\<rparr>"
    have r: "grow_soma_segments env n segs ?s1 = Inr st'"
      using Cons.prems st pts True by (simp add: Let_def)
    have one: "binds_roots env [?npos] st ?s1"
      unfolding binds_roots_def using True
      by (intro exI [of _ "[(?npos, Soma)]"]
            exI [of _ "[InsertSurfacePoint (vmuls3 (vadjust_offset_length3 ?npos (scentre env) (sradius env)) (k_SCALING_FACTOR (options env)))]"])
         simp
    from binds_roots_append [OF one Cons.IH [OF r]] show ?thesis by (simp add: pts)
  next
    case False
    define snpos where "snpos = (if log_level env < 10
                              then vadjust_offset_length3 ?npos (scentre env) 0
                              else vadjust_offset_length3 ?npos (scentre env) (sradius env))"
    define spos where "spos = vmuls3 snpos (k_SCALING_FACTOR (options env))"
    define node where "node = Section (sections st)"
    let ?ev = "[GrowNode Soma ?npos spos (diameter ndata * k_SCALING_FACTOR (options env)) node,
                MovePoint node 0 spos]"
    let ?s1 = "st\<lparr>sink := sink st @ ?ev,
                         sections := sections st + 1,
                         stats := append_grow_stat Soma snpos (stats st),
                         nodes := (?npos, node) # nodes st\<rparr>"
    have r: "grow_soma_segments env n segs ?s1 = Inr st'"
      using Cons.prems st pts False by (simp add: Let_def snpos_def spos_def node_def)
    have one: "binds_roots env [?npos] st ?s1"
      unfolding binds_roots_def using False
      by (intro exI [of _ "[(?npos, node)]"] exI [of _ ?ev]) (simp add: node_def)
    from binds_roots_append [OF one Cons.IH [OF r]] show ?thesis by (simp add: pts)
  qed
qed

lemma grow_soma_nodes_binds:
  "grow_soma_nodes env somanodes st = Inr st' \<Longrightarrow> binds_roots env (root_samples env somanodes) st st'"
proof (induction somanodes arbitrary: st)
  case Nil
  then show ?case by (auto simp: root_samples_def intro: binds_roots_Nil [where added = "[]"])
next
  case (Cons n rest)
  from Cons.prems obtain s1 where
    a: "grow_soma_segments env n (dd_get (nodesegments env) n) st = Inr s1"
    and b: "grow_soma_nodes env rest s1 = Inr st'"
    by (auto split: sum.splits)
  from binds_roots_append [OF grow_soma_segments_binds [OF a] Cons.IH [OF b]]
  show ?case by (simp add: root_samples_def)
qed

lemma grow_soma_binds:
  assumes "grow_soma env somanodes st = Inr st'"
  shows "binds_roots env (root_samples env somanodes) st st'"
proof -
  let ?s1 = "(if log_level env \<le> 10
                 then st\<lparr>sink := sink st @ [DebugSoma (sradius env * k_SCALING_FACTOR (options env))]\<rparr>
                 else st)"
  have r: "grow_soma_nodes env somanodes ?s1 = Inr st'"
    using assms by (simp add: grow_soma_def Let_def)
  have z: "binds_roots env [] st ?s1"
    by (cases "log_level env \<le> 10")
       (auto intro: binds_roots_Nil [where added = "[]"]
          binds_roots_Nil [where added = "[DebugSoma (sradius env * k_SCALING_FACTOR (options env))]"])
  from binds_roots_append [OF z grow_soma_nodes_binds [OF r]] show ?thesis by simp
qed

text \<open>
  A scenario: the root 1 at x = 2 with segments to the nodes 2 (x = 20) and 3 (x = 30),
  which both have a segment to node 4 (x = 40), so that node 4 is reached twice.
  \<open>diamond_state1\<close> is the state after \<open>grow_soma\<close>.
\<close>

definition diamond_env :: grow_env where
  "diamond_env = \<lparr>dagnodes = [(1, [2, 3]), (2, [4]), (3, [4]), (4, [])],
     nodesegments = [(1, [line_segment 1 2 [2, 20], line_segment 1 3 [2, 30]]),
                     (2, [line_segment 2 4 [20, 40]]), (3, [line_segment 3 4 [30, 40]])],
     scentre = (0, 0, 0), sradius = 5, options = default_options, log_level = 20\<rparr>"

definition diamond_state1 :: grow_state where
  "diamond_state1 = \<lparr>nodes = [((2, 0, 0), Soma), ((2, 0, 0), Soma)], visited = [], stats = stats0,
     sink = [InsertSurfacePoint (5, 0, 0), InsertSurfacePoint (5, 0, 0)], sections = 0\<rparr>"

lemma diamond_soma_result: "grow_soma diamond_env [1] grow_state0 = Inr diamond_state1"
  by (simp add: diamond_env_def diamond_state1_def grow_state0_def grow_eval)

lemma diamond_roots_result:
  "case grow_roots (Suc (Suc (Suc (Suc 0)))) diamond_env [1] (-1) diamond_state1 of
     Inl e \<Rightarrow> False
   | Inr st \<Rightarrow> nodes st = [((40, 0, 0), Section 2), ((30, 0, 0), Section 1),
                            ((20, 0, 0), Section 0), ((2, 0, 0), Soma), ((2, 0, 0), Soma)]
               \<and> node_grows (sink st) = [((20, 0, 0), Section 0), ((30, 0, 0), Section 1),
                                          ((40, 0, 0), Section 2)]
               \<and> visited st = [1, 2, 4, 3]"
  by (simp add: diamond_env_def diamond_state1_def grow_eval)

text \<open>
  C1 (as the code has it). During the recursive growth from all roots
  (\<open>grow_segments\<close> called for every soma node, with the shared \<open>visited\<close> list and
  \<open>nodes\<close> dictionary), every binding written into \<open>nodes\<close> is for a position that has no
  binding yet: the bindings added are for pairwise different positions, none of them
  bound before, and the bindings already there stay as they are. The \<open>grow\<close> calls made
  for a node are for pairwise different positions too, and each is the call whose
  section one of the new bindings holds: a position is grown as a node at most once,
  however many paths reach it. The root stage is different: \<open>grow_soma\<close> puts one
  binding in front of \<open>nodes\<close> for the first sample of every segment of every soma node,
  so the position of a root with k segments is bound k times; with the soma inflated
  every such binding is to the soma and no \<open>grow\<close> call is made for a node, otherwise
  every binding has a \<open>grow\<close> call and a new section of its own.
\<close>

theorem growth_binds_each_position_once:
  "(grow_roots limit env roots depth st = Inr st' \<longrightarrow>
      (\<exists>new added. nodes st' = new @ nodes st \<and> sink st' = sink st @ added
         \<and> distinct (map fst new)
         \<and> set (map fst new) \<inter> set (map fst (nodes st)) = {}
         \<and> distinct (map fst (node_grows added))
         \<and> set (node_grows added) \<subseteq> set new))
   \<and> (grow_soma env somanodes init = Inr fin \<longrightarrow>
      (\<exists>new added. nodes fin = new @ nodes init \<and> sink fin = sink init @ added
         \<and> map fst new = rev (root_samples env somanodes)
         \<and> (if k_INFLATE_SOMA (options env)
            then node_grows added = []
                 \<and> map snd new = replicate (length (root_samples env somanodes)) Soma
            else node_grows added = rev new
                 \<and> map snd new = rev (map Section
                      [sections init ..< sections init + length (root_samples env somanodes)]))))"
proof (intro conjI impI)
  assume "grow_roots limit env roots depth st = Inr st'"
  from grow_roots_grows [OF this]
  show "\<exists>new added. nodes st' = new @ nodes st \<and> sink st' = sink st @ added
         \<and> distinct (map fst new)
         \<and> set (map fst new) \<inter> set (map fst (nodes st)) = {}
         \<and> distinct (map fst (node_grows added))
         \<and> set (node_grows added) \<subseteq> set new"
    unfolding grows_fresh_def .
next
  assume "grow_soma env somanodes init = Inr fin"
  from grow_soma_binds [OF this]
  show "\<exists>new added. nodes fin = new @ nodes init \<and> sink fin = sink init @ added
         \<and> map fst new = rev (root_samples env somanodes)
         \<and> (if k_INFLATE_SOMA (options env)
            then node_grows added = []
                 \<and> map snd new = replicate (length (root_samples env somanodes)) Soma
            else node_grows added = rev new
                 \<and> map snd new = rev (map Section
                      [sections init ..< sections init + length (root_samples env somanodes)]))"
    unfolding binds_roots_def by blast
qed

theorem growth_binds_each_position_once_witness:
  "(case grow_roots (Suc (Suc (Suc (Suc 0)))) diamond_env [1] (-1) diamond_state1 of
      Inl e \<Rightarrow> False
    | Inr st' \<Rightarrow>
       (\<exists>new added. nodes st' = new @ nodes diamond_state1
         \<and> sink st' = sink diamond_state1 @ added
         \<and> distinct (map fst new)
         \<and> set (map fst new) \<inter> set (map fst (nodes diamond_state1)) = {}
         \<and> distinct (map fst (node_grows added))
         \<and> set (node_grows added) \<subseteq> set new))
   \<and> (case grow_soma diamond_env [1] grow_state0 of
        Inl e \<Rightarrow> False
      | Inr fin \<Rightarrow>
         (\<exists>new added. nodes fin = new @ nodes grow_state0 \<and> sink fin = sink grow_state0 @ added
           \<and> map fst new = rev (root_samples diamond_env [1])
           \<and> node_grows added = []
           \<and> map snd new = replicate (length (root_samples diamond_env [1])) Soma))
   \<and> root_samples diamond_env [1] = [(2, 0, 0), (2, 0, 0)]"
proof -
  obtain st' where eq:
    "grow_roots (Suc (Suc (Suc (Suc 0)))) diamond_env [1] (-1) diamond_state1 = Inr st'"
    using diamond_roots_result
    by (cases "grow_roots (Suc (Suc (Suc (Suc 0)))) diamond_env [1] (-1) diamond_state1") auto
  have inflate: "k_INFLATE_SOMA (options diamond_env)"
    by (simp add: diamond_env_def default_options_def)
  have rs: "root_samples diamond_env [1] = [(2, 0, 0), (2, 0, 0)]"
    by (simp add: root_samples_def diamond_env_def dd_get_def line_segment_def sample_point_def)
  from growth_binds_each_position_once
         [where limit = "Suc (Suc (Suc (Suc 0)))" and env = diamond_env and roots = "[1]"
            and depth = "-1" and st = diamond_state1 and st' = st'
            and somanodes = "[1]" and init = grow_state0 and fin = diamond_state1]
       eq diamond_soma_result inflate rs
  show ?thesis unfolding eq diamond_soma_result by simp
qed

text \<open>
  A root at x = 2 with two outgoing segments. With the options and the log level of a
  run at verbosity 0 (soma not inflated) \<open>grow_soma\<close> grows two sections from the soma
  for the one root position and binds the position twice, to different sections; with
  the default options it binds the position twice to the soma.
\<close>

definition debug_options :: morph_options where
  "debug_options = \<lparr>k_ALLOW_CYCLES = False, k_CONNECT_SOMA_SOMA = True,
     k_SEGMENT_THRESHOLD_SQR = 0, k_CLIP_INSIDE_SOMA = False, k_INFLATE_SOMA = False,
     k_SCALING_FACTOR = 1, k_CUTPOINT_AABB = None\<rparr>"

definition two_branch_env :: grow_env where
  "two_branch_env = \<lparr>dagnodes = [(1, [2, 3]), (2, []), (3, [])],
     nodesegments = [(1, [line_segment 1 2 [2, 20], line_segment 1 3 [2, 30]])],
     scentre = (0, 0, 0), sradius = 5, options = debug_options, log_level = 0\<rparr>"

theorem root_with_two_segments_counterexample:
  "(case grow_soma two_branch_env [1] grow_state0 of
      Inl e \<Rightarrow> False
    | Inr st \<Rightarrow> nodes st = [((2, 0, 0), Section 1), ((2, 0, 0), Section 0)]
                \<and> \<not> distinct (map fst (nodes st))
                \<and> filter is_grow (sink st) =
                    [GrowNode Soma (2, 0, 0) (2, 0, 0) 1 (Section 0),
                     GrowNode Soma (2, 0, 0) (2, 0, 0) 1 (Section 1)])
   \<and> (case grow_soma (two_branch_env\<lparr>options := default_options, log_level := 20\<rparr>) [1]
             grow_state0 of
        Inl e \<Rightarrow> False
      | Inr st \<Rightarrow> nodes st = [((2, 0, 0), Soma), ((2, 0, 0), Soma)])"
  by (simp add: two_branch_env_def debug_options_def grow_state0_def grow_eval)

section \<open>Worklist duplicates\<close>

text \<open>
  The worklist loop as the specification describes it, with a visitation check at pop
  time: a front node that has been visited already is dropped from the worklist and
  nothing else happens. Written to be compared with \<open>cdg_loop\<close>, which follows the
  source and has no such check.
\<close>

definition cdg_step_dedup :: "morph_options \<Rightarrow> int list \<Rightarrow> graph \<Rightarrow> cdg_state \<Rightarrow> cdg_state" where
  "cdg_step_dedup opts somanodes nodesgraph s =
     (if hd (cdg_frontier s) \<in> set (cdg_visited s)
      then s\<lparr>cdg_frontier := tl (cdg_frontier s)\<rparr>
      else cdg_step opts somanodes nodesgraph s)"

lemma cdg_step_dedup_decreases:
  assumes "cdg_frontier s \<noteq> []"
  shows "card (cdg_unvisited g (cdg_step_dedup opts sm g s)) < card (cdg_unvisited g s)
       \<or> (card (cdg_unvisited g (cdg_step_dedup opts sm g s)) = card (cdg_unvisited g s)
          \<and> cdg_stale (cdg_step_dedup opts sm g s) < cdg_stale s)"
proof (cases "hd (cdg_frontier s) \<in> set (cdg_visited s)")
  case False
  then show ?thesis using cdg_step_decreases [OF assms] by (simp add: cdg_step_dedup_def)
next
  case True
  obtain n rest where F: "cdg_frontier s = n # rest"
    using assms by (cases "cdg_frontier s") auto
  have "cdg_unvisited g (s\<lparr>cdg_frontier := rest\<rparr>) = cdg_unvisited g s"
    using True by (auto simp: cdg_unvisited_def F)
  moreover have "cdg_stale (s\<lparr>cdg_frontier := rest\<rparr>) < cdg_stale s"
    using True by (simp add: cdg_stale_def F)
  ultimately show ?thesis using True by (simp add: cdg_step_dedup_def F)
qed

function cdg_loop_dedup :: "morph_options \<Rightarrow> int list \<Rightarrow> graph \<Rightarrow> cdg_state \<Rightarrow> cdg_state" where
  "cdg_loop_dedup opts somanodes nodesgraph s =
     (if cdg_frontier s = [] then s
      else cdg_loop_dedup opts somanodes nodesgraph
             (cdg_step_dedup opts somanodes nodesgraph s))"
  by pat_completeness auto
termination
proof (relation "inv_image (less_than <*lex*> less_than)
         (\<lambda>(op, sm, g, s). (card (cdg_unvisited g s), cdg_stale s))")
  show "wf (inv_image (less_than <*lex*> less_than)
         (\<lambda>(op, sm, g, s). (card (cdg_unvisited g s), cdg_stale s)))"
    by (intro wf_inv_image wf_lex_prod wf_less_than)
next
  fix opts :: morph_options and somanodes :: "int list" and nodesgraph :: graph
    and s :: cdg_state
  assume "cdg_frontier s \<noteq> []"
  then show "((opts, somanodes, nodesgraph, cdg_step_dedup opts somanodes nodesgraph s),
              (opts, somanodes, nodesgraph, s))
        \<in> inv_image (less_than <*lex*> less_than)
         (\<lambda>(op, sm, g, s). (card (cdg_unvisited g s), cdg_stale s))"
    using cdg_step_dedup_decreases [of s nodesgraph opts somanodes] by auto
qed

declare cdg_loop_dedup.simps [simp del]

definition create_directed_graph_dedup ::
  "int list \<Rightarrow> graph \<Rightarrow> morph_options \<Rightarrow> morph_statistics \<Rightarrow> graph \<times> morph_statistics" where
  "create_directed_graph_dedup somanodes nodesgraph opts statistics =
     (let s = cdg_loop_dedup opts somanodes nodesgraph
                \<lparr>cdg_edges = [], cdg_visited = [], cdg_frontier = somanodes, cdg_stats = statistics\<rparr>
      in (cdg_edges s, cdg_stats s))"

text \<open>The test that keeps the directed edge to a neighbour, over the set of visited nodes.\<close>

definition cdg_accept :: "morph_options \<Rightarrow> int list \<Rightarrow> int set \<Rightarrow> int \<Rightarrow> bool" where
  "cdg_accept opts sm V nn =
     ((k_CONNECT_SOMA_SOMA opts \<or> nn \<notin> set sm) \<and> (k_ALLOW_CYCLES opts \<or> nn \<notin> V))"

lemma cdg_neighbours_edges:
  "cdg_edges (cdg_neighbours opts sm n nns s) =
     foldl (\<lambda>E nn. graph_add E n nn) (cdg_edges s)
       (filter (cdg_accept opts sm (set (cdg_visited s))) nns)"
  by (induction nns arbitrary: s) (simp_all add: Let_def cdg_accept_def)

lemma cdg_neighbours_ignored:
  "WARN_IGNORED_EDGES (cdg_stats (cdg_neighbours opts sm n nns s)) =
     WARN_IGNORED_EDGES (cdg_stats s)
       + length (filter (\<lambda>nn. \<not> cdg_accept opts sm (set (cdg_visited s)) nn) nns)"
  by (induction nns arbitrary: s) (simp_all add: Let_def cdg_accept_def)

text \<open>The statement \<open>if n not in edges: edges[n] = set()\<close>.\<close>

definition ensure_key :: "graph \<Rightarrow> int \<Rightarrow> graph" where
  "ensure_key E n = (if \<not> has_key E n then AList.update n [] E else E)"

lemma cdg_step_edges:
  "cdg_edges (cdg_step opts sm g s) =
     foldl (\<lambda>E nn. graph_add E (hd (cdg_frontier s)) nn) (ensure_key (cdg_edges s) (hd (cdg_frontier s)))
       (filter (cdg_accept opts sm (insert (hd (cdg_frontier s)) (set (cdg_visited s))))
          (dd_get g (hd (cdg_frontier s))))"
  by (simp add: cdg_step_def Let_def cdg_neighbours_edges ensure_key_def)

lemma cdg_step_ignored:
  "WARN_IGNORED_EDGES (cdg_stats (cdg_step opts sm g s)) =
     WARN_IGNORED_EDGES (cdg_stats s)
       + length (filter (\<lambda>nn. \<not> cdg_accept opts sm (insert (hd (cdg_frontier s)) (set (cdg_visited s))) nn)
           (dd_get g (hd (cdg_frontier s))))"
  by (simp add: cdg_step_def Let_def cdg_neighbours_ignored)


text \<open>
  The entries of a worklist that will lead to a first visit: the worklist without the
  nodes seen (visited) and without the repeated entries of a node.
\<close>

fun pending :: "int set \<Rightarrow> int list \<Rightarrow> int list" where
  "pending seen [] = []"
| "pending seen (x # xs) =
     (if x \<in> seen then pending seen xs else x # pending (insert x seen) xs)"

lemma set_pending: "set (pending seen xs) = set xs - seen"
  by (induction xs arbitrary: seen) auto

lemma pending_append:
  "pending seen (xs @ ys) = pending seen xs @ pending (seen \<union> set xs) ys"
  by (induction xs arbitrary: seen) (auto simp: insert_absorb)

lemma pending_seen: "set ys \<subseteq> seen \<Longrightarrow> pending seen ys = []"
  by (induction ys arbitrary: seen) auto

lemma pending_Nil: "pending seen ys = [] \<Longrightarrow> set ys \<subseteq> seen"
  by (induction ys arbitrary: seen) (auto split: if_splits)

lemma pending_Cons:
  "pending seen F = n # t \<Longrightarrow>
   \<exists>pre post. F = pre @ n # post \<and> set pre \<subseteq> seen \<and> n \<notin> seen
        \<and> t = pending (insert n seen) post"
proof (induction F arbitrary: seen)
  case Nil
  then show ?case by simp
next
  case (Cons x F)
  show ?case
  proof (cases "x \<in> seen")
    case True
    with Cons.prems have "pending seen F = n # t" by simp
    from Cons.IH [OF this] obtain pre post where
      "F = pre @ n # post" "set pre \<subseteq> seen" "n \<notin> seen" "t = pending (insert n seen) post"
      by blast
    then have "x # F = (x # pre) @ n # post \<and> set (x # pre) \<subseteq> seen \<and> n \<notin> seen
        \<and> t = pending (insert n seen) post" using True by simp
    then show ?thesis by blast
  next
    case False
    with Cons.prems have "x = n" "t = pending (insert n seen) F" by auto
    then have "x # F = [] @ n # F \<and> set [] \<subseteq> seen \<and> n \<notin> seen
        \<and> t = pending (insert n seen) F" using False by simp
    then show ?thesis by blast
  qed
qed

lemma pending_union_cong:
  "pending A xs = pending A ys \<Longrightarrow> pending (A \<union> set xs) zs = pending (A \<union> set ys) zs"
proof -
  assume "pending A xs = pending A ys"
  then have "set xs - A = set ys - A" using set_pending by metis
  then have "A \<union> set xs = A \<union> set ys" by blast
  then show ?thesis by simp
qed

lemma graph_add_present:
  "has_key E n \<Longrightarrow> nn \<in> set (dd_get E n) \<Longrightarrow> graph_add E n nn = E"
proof -
  assume k: "has_key E n" and m: "nn \<in> set (dd_get E n)"
  from k obtain v where v: "map_of E n = Some v"
    by (cases "map_of E n") (auto simp: has_key_def map_of_eq_None_iff)
  then have "dd_get E n = v" by (simp add: dd_get_def)
  then show ?thesis using m v by (simp add: graph_add_def set_add_def update_triv)
qed

lemma has_key_graph_add: "has_key (graph_add E a b) k = (k = a \<or> has_key E k)"
  by (auto simp: has_key_def graph_add_def dom_update)

lemma dd_get_graph_add:
  "dd_get (graph_add E a b) k = (if k = a then set_add (dd_get E a) b else dd_get E k)"
  by (simp add: graph_add_def dd_get_def update_conv')

lemma foldl_graph_add_present:
  "has_key E n \<Longrightarrow> set nns \<subseteq> set (dd_get E n) \<Longrightarrow> foldl (\<lambda>E nn. graph_add E n nn) E nns = E"
  by (induction nns) (simp_all add: graph_add_present)

lemma has_key_foldl_graph_add:
  "has_key (foldl (\<lambda>E nn. graph_add E n nn) E nns) k = (has_key E k \<or> (k = n \<and> nns \<noteq> []))"
  by (induction nns arbitrary: E) (auto simp: has_key_graph_add)

lemma dd_get_foldl_graph_add:
  "set (dd_get (foldl (\<lambda>E nn. graph_add E n nn) E nns) k) =
     set (dd_get E k) \<union> (if k = n then set nns else {})"
  by (induction nns arbitrary: E) (auto simp: dd_get_graph_add set_add_def)

lemma has_key_ensure_key: "has_key (ensure_key E n) k = (k = n \<or> has_key E k)"
  by (auto simp: ensure_key_def has_key_def dom_update)

lemma dd_get_ensure_key: "dd_get (ensure_key E n) k = dd_get E k"
  by (auto simp: ensure_key_def dd_get_def update_conv' has_key_def map_of_eq_None_iff [symmetric])

lemma ensure_key_present: "has_key E n \<Longrightarrow> ensure_key E n = E"
  by (simp add: ensure_key_def)


text \<open>
  The invariant of the loop of the source: the neighbours of a visited node are visited
  or in the worklist, and a visited node has its entry in \<open>edges\<close> with every neighbour
  that the policy test would accept now.
\<close>

definition cdg_inv2 :: "morph_options \<Rightarrow> int list \<Rightarrow> graph \<Rightarrow> cdg_state \<Rightarrow> bool" where
  "cdg_inv2 opts sm g s =
     ((\<forall>v \<in> set (cdg_visited s). set (dd_get g v) \<subseteq> set (cdg_visited s) \<union> set (cdg_frontier s))
      \<and> (\<forall>v \<in> set (cdg_visited s). has_key (cdg_edges s) v
            \<and> (\<forall>w \<in> set (dd_get g v). cdg_accept opts sm (set (cdg_visited s)) w
                   \<longrightarrow> w \<in> set (dd_get (cdg_edges s) v))))"

lemma cdg_accept_mono: "cdg_accept opts sm (insert n V) w \<Longrightarrow> cdg_accept opts sm V w"
  by (auto simp: cdg_accept_def)

lemma has_key_cdg_step:
  "has_key (cdg_edges (cdg_step opts sm g s)) k = (k = hd (cdg_frontier s) \<or> has_key (cdg_edges s) k)"
  by (auto simp: cdg_step_edges has_key_foldl_graph_add has_key_ensure_key)

lemma dd_get_cdg_step:
  "set (dd_get (cdg_edges (cdg_step opts sm g s)) k) =
     set (dd_get (cdg_edges s) k) \<union>
     (if k = hd (cdg_frontier s)
      then {w \<in> set (dd_get g (hd (cdg_frontier s))).
              cdg_accept opts sm (insert (hd (cdg_frontier s)) (set (cdg_visited s))) w}
      else {})"
  by (simp add: cdg_step_edges dd_get_foldl_graph_add dd_get_ensure_key)

lemma cdg_inv2_step:
  assumes "cdg_inv2 opts sm g s" "cdg_frontier s \<noteq> []"
  shows "cdg_inv2 opts sm g (cdg_step opts sm g s)"
proof -
  obtain n rest where F: "cdg_frontier s = n # rest"
    using assms(2) by (cases "cdg_frontier s") auto
  let ?s' = "cdg_step opts sm g s"
  have V': "set (cdg_visited ?s') = insert n (set (cdg_visited s))"
    by (simp add: cdg_step_visited F)
  have F': "cdg_frontier ?s' =
      rest @ filter (\<lambda>nn. nn \<notin> set (cdg_visited s) \<and> nn \<noteq> n) (dd_get g n)"
    using cdg_step_frontier [OF assms(2), of opts sm g] by (simp add: F)
  have A: "\<And>v. v \<in> set (cdg_visited s) \<Longrightarrow>
           set (dd_get g v) \<subseteq> set (cdg_visited s) \<union> set (cdg_frontier s)"
    and B1: "\<And>v. v \<in> set (cdg_visited s) \<Longrightarrow> has_key (cdg_edges s) v"
    and B2: "\<And>v w. v \<in> set (cdg_visited s) \<Longrightarrow> w \<in> set (dd_get g v) \<Longrightarrow>
           cdg_accept opts sm (set (cdg_visited s)) w \<Longrightarrow> w \<in> set (dd_get (cdg_edges s) v)"
    using assms(1) unfolding cdg_inv2_def by blast+
  have U: "set (cdg_visited s) \<union> set (cdg_frontier s)
             \<subseteq> set (cdg_visited ?s') \<union> set (cdg_frontier ?s')"
    by (auto simp: V' F' F)
  have N: "set (dd_get g n) \<subseteq> set (cdg_visited ?s') \<union> set (cdg_frontier ?s')"
    by (auto simp: V' F')
  have A': "\<forall>v \<in> set (cdg_visited ?s').
      set (dd_get g v) \<subseteq> set (cdg_visited ?s') \<union> set (cdg_frontier ?s')"
  proof
    fix v assume "v \<in> set (cdg_visited ?s')"
    then have "v \<in> set (cdg_visited s) \<or> v = n" by (auto simp: V')
    then show "set (dd_get g v) \<subseteq> set (cdg_visited ?s') \<union> set (cdg_frontier ?s')"
      using A U N by blast
  qed
  have B': "\<forall>v \<in> set (cdg_visited ?s'). has_key (cdg_edges ?s') v
            \<and> (\<forall>w \<in> set (dd_get g v). cdg_accept opts sm (set (cdg_visited ?s')) w
                   \<longrightarrow> w \<in> set (dd_get (cdg_edges ?s') v))"
  proof (intro ballI conjI impI)
    fix v assume v: "v \<in> set (cdg_visited ?s')"
    then show "has_key (cdg_edges ?s') v"
      using B1 by (auto simp: has_key_cdg_step V' F)
  next
    fix v w assume v: "v \<in> set (cdg_visited ?s')" and w: "w \<in> set (dd_get g v)"
      and acc: "cdg_accept opts sm (set (cdg_visited ?s')) w"
    show "w \<in> set (dd_get (cdg_edges ?s') v)"
    proof (cases "v = n")
      case True
      then show ?thesis using w acc by (simp add: dd_get_cdg_step F V')
    next
      case False
      then have "v \<in> set (cdg_visited s)" using v by (simp add: V')
      moreover have "cdg_accept opts sm (set (cdg_visited s)) w"
        using acc by (simp add: V' cdg_accept_mono)
      ultimately have "w \<in> set (dd_get (cdg_edges s) v)" using B2 w by blast
      then show ?thesis by (simp add: dd_get_cdg_step)
    qed
  qed
  show ?thesis unfolding cdg_inv2_def using A' B' by blast
qed

lemma cdg_step_stale_edges:
  assumes "cdg_inv2 opts sm g s" "cdg_frontier s \<noteq> []" "hd (cdg_frontier s) \<in> set (cdg_visited s)"
  shows "cdg_edges (cdg_step opts sm g s) = cdg_edges s"
proof -
  let ?n = "hd (cdg_frontier s)"
  have k: "has_key (cdg_edges s) ?n"
    using assms(1,3) unfolding cdg_inv2_def by blast
  have ins: "insert ?n (set (cdg_visited s)) = set (cdg_visited s)"
    using assms(3) by auto
  have "set (filter (cdg_accept opts sm (set (cdg_visited s))) (dd_get g ?n))
          \<subseteq> set (dd_get (cdg_edges s) ?n)"
    using assms(1,3) unfolding cdg_inv2_def by auto
  then show ?thesis
    using k by (simp add: cdg_step_edges ins ensure_key_present foldl_graph_add_present)
qed

lemma cdg_loop_dedup_skip:
  "set pre \<subseteq> set (cdg_visited d) \<Longrightarrow> cdg_frontier d = pre @ xs \<Longrightarrow>
   cdg_loop_dedup opts sm g d = cdg_loop_dedup opts sm g (d\<lparr>cdg_frontier := xs\<rparr>)"
proof (induction pre arbitrary: d)
  case Nil
  then have "d\<lparr>cdg_frontier := xs\<rparr> = d" by simp
  then show ?case by simp
next
  case (Cons x pre)
  have "cdg_loop_dedup opts sm g d = cdg_loop_dedup opts sm g (d\<lparr>cdg_frontier := pre @ xs\<rparr>)"
    using Cons.prems by (subst cdg_loop_dedup.simps) (simp add: cdg_step_dedup_def)
  also have "\<dots> = cdg_loop_dedup opts sm g (d\<lparr>cdg_frontier := pre @ xs, cdg_frontier := xs\<rparr>)"
    using Cons.prems by (intro Cons.IH) simp_all
  finally show ?case by simp
qed

lemma cdg_loop_dedup_stale:
  assumes "set (cdg_frontier d) \<subseteq> set (cdg_visited d)"
  shows "cdg_loop_dedup opts sm g d = d\<lparr>cdg_frontier := []\<rparr>"
proof -
  have "cdg_loop_dedup opts sm g d = cdg_loop_dedup opts sm g (d\<lparr>cdg_frontier := []\<rparr>)"
    using cdg_loop_dedup_skip [of "cdg_frontier d" d "[]" opts sm g] assms by simp
  also have "\<dots> = d\<lparr>cdg_frontier := []\<rparr>"
    by (subst cdg_loop_dedup.simps) simp
  finally show ?thesis .
qed


lemma cdg_simulation:
  assumes "cdg_inv2 opts sm g s"
    and "cdg_edges d = cdg_edges s"
    and "set (cdg_visited d) = set (cdg_visited s)"
    and "pending (set (cdg_visited s)) (cdg_frontier d) = pending (set (cdg_visited s)) (cdg_frontier s)"
    and "WARN_IGNORED_EDGES (cdg_stats d) \<le> WARN_IGNORED_EDGES (cdg_stats s)"
  shows "cdg_edges (cdg_loop_dedup opts sm g d) = cdg_edges (cdg_loop opts sm g s)
       \<and> set (cdg_visited (cdg_loop_dedup opts sm g d)) = set (cdg_visited (cdg_loop opts sm g s))
       \<and> WARN_IGNORED_EDGES (cdg_stats (cdg_loop_dedup opts sm g d))
           \<le> WARN_IGNORED_EDGES (cdg_stats (cdg_loop opts sm g s))"
  using assms
proof (induction opts sm g s arbitrary: d rule: cdg_loop.induct)
  case (1 opts sm g s)
  let ?V = "set (cdg_visited s)"
  show ?case
  proof (cases "cdg_frontier s = []")
    case True
    then have "pending ?V (cdg_frontier d) = []" using "1.prems"(4) by simp
    then have "set (cdg_frontier d) \<subseteq> set (cdg_visited d)"
      using pending_Nil "1.prems"(3) by metis
    then have "cdg_loop_dedup opts sm g d = d\<lparr>cdg_frontier := []\<rparr>"
      by (rule cdg_loop_dedup_stale)
    moreover have "cdg_loop opts sm g s = s" using True by (simp add: cdg_loop.simps)
    ultimately show ?thesis using "1.prems" by simp
  next
    case False
    then obtain n rest where F: "cdg_frontier s = n # rest"
      by (cases "cdg_frontier s") auto
    let ?s' = "cdg_step opts sm g s"
    have loop_s: "cdg_loop opts sm g s = cdg_loop opts sm g ?s'"
      using False by (subst cdg_loop.simps) simp
    have inv': "cdg_inv2 opts sm g ?s'" using "1.prems"(1) False by (rule cdg_inv2_step)
    have Vs': "set (cdg_visited ?s') = insert n ?V" by (simp add: cdg_step_visited F)
    let ?P = "filter (\<lambda>nn. nn \<notin> ?V \<and> nn \<noteq> n) (dd_get g n)"
    have Fs': "cdg_frontier ?s' = rest @ ?P"
      using cdg_step_frontier [OF False, of opts sm g] by (simp add: F)
    show ?thesis
    proof (cases "n \<in> ?V")
      case True
      have ins: "insert n ?V = ?V" using True by auto
      have E: "cdg_edges d = cdg_edges ?s'"
        using cdg_step_stale_edges [OF "1.prems"(1) False] True "1.prems"(2) by (simp add: F)
      have V: "set (cdg_visited d) = set (cdg_visited ?s')"
        using "1.prems"(3) by (simp add: Vs' ins)
      have "set (dd_get g n) \<subseteq> ?V \<union> set (cdg_frontier s)"
        using "1.prems"(1) True unfolding cdg_inv2_def by blast
      then have "set ?P \<subseteq> ?V \<union> set rest" by (auto simp: F)
      then have "pending (?V \<union> set rest) ?P = []" by (rule pending_seen)
      then have "pending ?V (cdg_frontier ?s') = pending ?V (cdg_frontier s)"
        using True by (simp add: Fs' F pending_append)
      then have P: "pending (set (cdg_visited ?s')) (cdg_frontier d)
                      = pending (set (cdg_visited ?s')) (cdg_frontier ?s')"
        using "1.prems"(4) by (simp add: Vs' ins)
      have I: "WARN_IGNORED_EDGES (cdg_stats d) \<le> WARN_IGNORED_EDGES (cdg_stats ?s')"
        using "1.prems"(5) by (simp add: cdg_step_ignored)
      from "1.IH" [OF False inv' E V P I] show ?thesis by (simp add: loop_s)
    next
      case fresh: False
      have "pending ?V (cdg_frontier d) = n # pending (insert n ?V) rest"
        using "1.prems"(4) fresh by (simp add: F)
      from pending_Cons [OF this] obtain pre post where
        Fd: "cdg_frontier d = pre @ n # post" and pre: "set pre \<subseteq> ?V"
        and post: "pending (insert n ?V) rest = pending (insert n ?V) post"
        by blast
      let ?d1 = "d\<lparr>cdg_frontier := n # post\<rparr>"
      let ?d' = "cdg_step opts sm g ?d1"
      have "cdg_loop_dedup opts sm g d = cdg_loop_dedup opts sm g ?d1"
        using pre "1.prems"(3) Fd by (intro cdg_loop_dedup_skip [of pre]) simp_all
      also have "\<dots> = cdg_loop_dedup opts sm g ?d'"
        using fresh "1.prems"(3) by (subst cdg_loop_dedup.simps) (simp add: cdg_step_dedup_def)
      finally have loop_d: "cdg_loop_dedup opts sm g d = cdg_loop_dedup opts sm g ?d'" .
      have E: "cdg_edges ?d' = cdg_edges ?s'"
        using "1.prems"(2,3) by (simp add: cdg_step_edges F)
      have V: "set (cdg_visited ?d') = set (cdg_visited ?s')"
        using "1.prems"(3) by (simp add: cdg_step_visited F)
      have Fd': "cdg_frontier ?d' = post @ ?P"
        using cdg_step_frontier [of ?d1 opts sm g] "1.prems"(3) by simp
      have "pending (insert n ?V \<union> set rest) ?P = pending (insert n ?V \<union> set post) ?P"
        using post by (rule pending_union_cong)
      then have P: "pending (set (cdg_visited ?s')) (cdg_frontier ?d')
                      = pending (set (cdg_visited ?s')) (cdg_frontier ?s')"
        using post by (simp add: Vs' Fs' Fd' pending_append)
      have I: "WARN_IGNORED_EDGES (cdg_stats ?d') \<le> WARN_IGNORED_EDGES (cdg_stats ?s')"
        using "1.prems"(3,5) by (simp add: cdg_step_ignored F)
      from "1.IH" [OF False inv' E V P I] show ?thesis by (simp add: loop_s loop_d)
    qed
  qed
qed

lemma cdg_loop_frontier: "cdg_frontier (cdg_loop opts sm g s) = []"
proof (induction opts sm g s rule: cdg_loop.induct)
  case (1 opts sm g s)
  then show ?case by (subst cdg_loop.simps) simp
qed

lemma cdg_loop_dedup_distinct:
  "distinct (cdg_visited d) \<Longrightarrow> distinct (cdg_visited (cdg_loop_dedup opts sm g d))"
proof (induction opts sm g d rule: cdg_loop_dedup.induct)
  case (1 opts sm g d)
  show ?case
  proof (cases "cdg_frontier d = []")
    case True
    then show ?thesis using "1.prems" by (subst cdg_loop_dedup.simps) simp
  next
    case False
    have "distinct (cdg_visited (cdg_step_dedup opts sm g d))"
      using "1.prems" by (simp add: cdg_step_dedup_def cdg_step_visited)
    from "1.IH" [OF False this] show ?thesis using False by (subst cdg_loop_dedup.simps) simp
  qed
qed


text \<open>
  C2 (as the code has it). \<open>create_directed_graph\<close> appends a node to \<open>visited\<close> once for
  every entry the node has in the worklist, so a node can be appended more than once.
  Processing a node again adds no edge: the loop that skips nodes already visited at
  pop time returns the same directed graph and visits the same nodes, each once, and
  its count of ignored edges is at most that of the source. The loop of the source
  ends, with an empty worklist, for every input.
\<close>

theorem dedup_same_dag:
  "fst (create_directed_graph_dedup somanodes nodesgraph opts st)
     = fst (create_directed_graph somanodes nodesgraph opts st)
   \<and> WARN_IGNORED_EDGES (snd (create_directed_graph_dedup somanodes nodesgraph opts st))
       \<le> WARN_IGNORED_EDGES (snd (create_directed_graph somanodes nodesgraph opts st))
   \<and> distinct (cdg_visited (cdg_loop_dedup opts somanodes nodesgraph
        \<lparr>cdg_edges = [], cdg_visited = [], cdg_frontier = somanodes, cdg_stats = st\<rparr>))
   \<and> set (cdg_visited (cdg_loop_dedup opts somanodes nodesgraph
        \<lparr>cdg_edges = [], cdg_visited = [], cdg_frontier = somanodes, cdg_stats = st\<rparr>))
      = set (cdg_visited (cdg_loop opts somanodes nodesgraph
        \<lparr>cdg_edges = [], cdg_visited = [], cdg_frontier = somanodes, cdg_stats = st\<rparr>))
   \<and> cdg_frontier (cdg_loop opts somanodes nodesgraph
        \<lparr>cdg_edges = [], cdg_visited = [], cdg_frontier = somanodes, cdg_stats = st\<rparr>) = []"
proof -
  let ?init = "\<lparr>cdg_edges = [], cdg_visited = [], cdg_frontier = somanodes, cdg_stats = st\<rparr>"
  have "cdg_inv2 opts somanodes nodesgraph ?init" by (simp add: cdg_inv2_def)
  from cdg_simulation [OF this, of ?init] cdg_loop_dedup_distinct [of ?init opts somanodes nodesgraph]
    cdg_loop_frontier [of opts somanodes nodesgraph ?init]
  show ?thesis by (simp add: create_directed_graph_def create_directed_graph_dedup_def Let_def)
qed

theorem dedup_same_dag_witness:
  "fst (create_directed_graph_dedup [1] (create_node_graph triangle_segments) default_options stats0)
     = fst (create_directed_graph [1] (create_node_graph triangle_segments) default_options stats0)"
  using dedup_same_dag [of "[1]" "create_node_graph triangle_segments" default_options stats0]
  by blast

lemma create_node_graph_triangle: "create_node_graph triangle_segments = [(1, [2, 3]), (2, [1, 3]), (3, [2, 1])]"
  by (simp add: create_node_graph_def triangle_segments_def line_segment_def graph_add_def
        set_add_def dd_get_def)

lemmas cdg_eval = cdg_loop.simps cdg_step_def default_options_def
        Let_def has_key_def graph_add_def set_add_def dd_get_def stats0_def

lemma tri_visited:
  "cdg_visited (cdg_loop default_options [1] [(1, [2, 3]), (2, [1, 3]), (3, [2, 1])]
      \<lparr>cdg_edges = [], cdg_visited = [], cdg_frontier = [1], cdg_stats = stats0\<rparr>) = [1, 2, 3, 3]"
  by (simp add: cdg_eval)

lemma tri_ignored:
  "WARN_IGNORED_EDGES (snd (create_directed_graph [1] [(1, [2, 3]), (2, [1, 3]), (3, [2, 1])] default_options stats0)) = 5"
  by (simp add: create_directed_graph_def cdg_eval)

lemma tri_ignored_dedup:
  "WARN_IGNORED_EDGES (snd (create_directed_graph_dedup [1] [(1, [2, 3]), (2, [1, 3]), (3, [2, 1])] default_options stats0)) = 3"
  by (simp add: create_directed_graph_dedup_def cdg_loop_dedup.simps cdg_step_dedup_def cdg_step_def default_options_def
        Let_def has_key_def graph_add_def set_add_def dd_get_def stats0_def)


text \<open>
  The triangle 1-2, 2-3, 3-1 with root 1: node 3 is put into the worklist by node 1 and
  by node 2, and is appended to \<open>visited\<close> twice; the second round counts two more
  ignored edges, five in all, where the loop with the check counts three.
\<close>

theorem triangle_visited_twice_counterexample:
  "cdg_visited (cdg_loop default_options [1] (create_node_graph triangle_segments)
      \<lparr>cdg_edges = [], cdg_visited = [], cdg_frontier = [1], cdg_stats = stats0\<rparr>) = [1, 2, 3, 3]
   \<and> WARN_IGNORED_EDGES (snd (create_directed_graph [1] (create_node_graph triangle_segments)
        default_options stats0)) = 5
   \<and> WARN_IGNORED_EDGES (snd (create_directed_graph_dedup [1] (create_node_graph triangle_segments)
        default_options stats0)) = 3"
  by (simp add: create_node_graph_triangle tri_visited tri_ignored tri_ignored_dedup)

section \<open>Graph validator: properties\<close>









lemma end_reversed_segment [simp]: "end' (reversed_segment s) = start s"
  by (simp add: reversed_segment_def)







end
